theory Spec2Isabelle
  imports Main "HOL-Library.Monad_Syntax"
begin

section \<open>Big integers of the Koka C runtime: \<^verbatim>\<open>cruntime/src/integer.c\<close>\<close>

text \<open>
  The embedding follows the C source function by function.

  \<^item> \<^verbatim>\<open>digit_t\<close> (int32), \<^verbatim>\<open>ddigit_t\<close> (int64), \<^verbatim>\<open>intptr_t\<close> and \<^verbatim>\<open>size_t\<close> values are
    modelled by \<open>int\<close> and \<open>nat\<close>.  On buffers whose digits lie in \<open>[0, BASE)\<close> no
    intermediate value of the source leaves its machine type (the source's header comment:
    a digit holds \<open>2*BASE + 1\<close>, a double digit \<open>BASE*BASE + BASE + 1\<close>).
  \<^item> A \<^verbatim>\<open>bigint_t\<close> is a record; \<open>digits\<close> is the whole allocated digit array, so its
    length is the number of allocated slots.  Every array access is checked against that
    length: a function returns \<open>None\<close> when the C code would read or write outside the
    allocation (undefined behaviour in C).
  \<^item> \<^verbatim>\<open>bigint_is_unique_\<close> asks the host's reference count, which is not part of this
    file; every function that asks it takes the answer as a boolean argument.
  \<^item> When \<^verbatim>\<open>bigint_alloc_reuse\<close> hands back its argument, \<^verbatim>\<open>z\<close> and \<^verbatim>\<open>x\<close> are the same
    object in C.  The loops then read \<^verbatim>\<open>x->digits[i]\<close> from the current \<^verbatim>\<open>z\<close>.
  \<^item> The source's names ending in an underscore (\<^verbatim>\<open>bigint_count_\<close>, ...) lose it here.
  \<^item> Reference counting itself (\<^verbatim>\<open>incref\<close>, \<^verbatim>\<open>decref\<close>, \<^verbatim>\<open>dup\<close>) has no effect on values
    and is left out.
\<close>

subsection \<open>Constants and the data model\<close>

definition BASE :: int where
  "BASE = 1000000000"

definition LOG_BASE :: nat where
  "LOG_BASE = 9"

text \<open>\<^verbatim>\<open>MAX_EXTRA = UINT16_MAX / 2\<close>.\<close>
definition MAX_EXTRA :: nat where
  "MAX_EXTRA = 32767"

text \<open>The content of a digit slot that was allocated and never written.  No proof below
  unfolds this definition.\<close>
definition uninit :: int where
  "uninit = 123456789"

record bigint =
  is_neg :: bool
  extra :: nat
  count :: nat
  digits :: "int list"

text \<open>The tagged \<^verbatim>\<open>integer_t\<close>: a boxed small integer or a pointer to a \<^verbatim>\<open>bigint_t\<close>.
  The tagging scheme lives in \<^verbatim>\<open>runtime/integer.h\<close>, which is not among the sources.\<close>
datatype integer_t = Small int | Big bigint

datatype error = ParseError | DivisionByZero | UndefinedBehaviour

fun is_smallint :: "integer_t \<Rightarrow> bool" where
  "is_smallint (Small i) = True"
| "is_smallint (Big b) = False"

definition bigint_is_neg :: "bigint \<Rightarrow> bool" where
  "bigint_is_neg b = is_neg b"

definition bigint_sign :: "bigint \<Rightarrow> int" where
  "bigint_sign b = (if bigint_is_neg b then - 1 else 1)"

definition bigint_count :: "bigint \<Rightarrow> nat" where
  "bigint_count b = count b"

definition bigint_available :: "bigint \<Rightarrow> nat" where
  "bigint_available b = count b + extra b"

text \<open>Checked access to \<^verbatim>\<open>b->digits[i]\<close>.\<close>
definition rd :: "bigint \<Rightarrow> nat \<Rightarrow> int option" where
  "rd b i = (if i < length (digits b) then Some (digits b ! i) else None)"

definition wr :: "bigint \<Rightarrow> nat \<Rightarrow> int \<Rightarrow> bigint option" where
  "wr b i d = (if i < length (digits b) then Some (b\<lparr>digits := (digits b)[i := d]\<rparr>) else None)"

text \<open>\<^verbatim>\<open>x->digits[i]\<close> where \<^verbatim>\<open>z\<close> may be the same object as \<^verbatim>\<open>x\<close>.\<close>
definition rdx :: "bool \<Rightarrow> bigint \<Rightarrow> bigint \<Rightarrow> nat \<Rightarrow> int option" where
  "rdx same x z i = rd (if same then z else x) i"

text \<open>\<^verbatim>\<open>b->digits[b->count-1]\<close>; with \<^verbatim>\<open>count == 0\<close> the index wraps around and the read is
  outside the array.\<close>
definition bigint_last_digit :: "bigint \<Rightarrow> int option" where
  "bigint_last_digit b = (if count b = 0 then None else rd b (count b - 1))"

subsection \<open>Allocation, trim\<close>

definition bigint_roundup_count :: "nat \<Rightarrow> nat" where
  "bigint_roundup_count n =
     (if n < 4 then 4 else if n mod 2 = 1 then n + 1 else n)"

definition bigint_alloc :: "nat \<Rightarrow> bool \<Rightarrow> bigint" where
  "bigint_alloc n neg =
     (let dcount = bigint_roundup_count n
      in \<lparr>is_neg = neg, extra = dcount - n, count = n,
          digits = replicate dcount uninit\<rparr>)"

definition bigint_alloc_zero :: "nat \<Rightarrow> bool \<Rightarrow> bigint" where
  "bigint_alloc_zero n neg =
     (let b = bigint_alloc n neg
      in b\<lparr>digits := replicate (bigint_available b) 0 @ drop (bigint_available b) (digits b)\<rparr>)"

text \<open>\<^verbatim>\<open>ptr_realloc\<close> to \<open>n\<close> digit slots keeps the common prefix.\<close>
definition realloc_digits :: "int list \<Rightarrow> nat \<Rightarrow> int list" where
  "realloc_digits ds n = take n ds @ replicate (n - length ds) uninit"

text \<open>The \<^verbatim>\<open>extra\<close> bit field has 15 bits.\<close>
definition bigint_trim_realloc :: "bigint \<Rightarrow> nat \<Rightarrow> bigint" where
  "bigint_trim_realloc x n =
     (let dcount = bigint_roundup_count n;
          xcount = bigint_available x
      in if dcount \<le> xcount \<and> xcount - dcount < 4
         then x\<lparr>count := n, extra := (xcount - n) mod 32768\<rparr>
         else x\<lparr>digits := realloc_digits (digits x) dcount,
                count := n, extra := (dcount - n) mod 32768\<rparr>)"

definition bigint_trim_to :: "bigint \<Rightarrow> nat \<Rightarrow> bool \<Rightarrow> bigint" where
  "bigint_trim_to x n allow_realloc =
     (let d = int (bigint_available x) - int n
      in if d < 0 then x
         else if d > int MAX_EXTRA then
           (if allow_realloc then bigint_trim_realloc x n
            else x\<lparr>count := n, extra := MAX_EXTRA\<rparr>)
         else x\<lparr>count := n, extra := nat d\<rparr>)"

text \<open>\<^verbatim>\<open>while ((i > 0) && (x->digits[i-1] == 0)) { i--; }\<close>\<close>
fun trim_scan :: "bigint \<Rightarrow> nat \<Rightarrow> nat option" where
  "trim_scan x 0 = Some 0"
| "trim_scan x (Suc i) =
     (case rd x i of None \<Rightarrow> None
      | Some d \<Rightarrow> if d = 0 then trim_scan x i else Some (Suc i))"

definition bigint_trim :: "bigint \<Rightarrow> bool \<Rightarrow> bigint option" where
  "bigint_trim x allow_realloc =
     (case trim_scan x (bigint_count x) of None \<Rightarrow> None
      | Some i \<Rightarrow> Some (bigint_trim_to x i allow_realloc))"

text \<open>Returns the buffer and whether it is the argument itself (\<^verbatim>\<open>z == x\<close>).\<close>
definition bigint_alloc_reuse :: "bool \<Rightarrow> bigint \<Rightarrow> nat \<Rightarrow> bigint \<times> bool" where
  "bigint_alloc_reuse x_unique x n =
     (let d = int (bigint_available x) - int n
      in if d \<ge> 0 \<and> d \<le> int MAX_EXTRA \<and> x_unique
         then (bigint_trim_to x n False, True)
         else (bigint_alloc n (bigint_is_neg x), False))"

text \<open>\<^verbatim>\<open>memcpy(z->digits, x->digits, n * sizeof(digit_t))\<close>\<close>
definition memcpy_digits :: "bigint \<Rightarrow> bigint \<Rightarrow> nat \<Rightarrow> bigint option" where
  "memcpy_digits z x n =
     (if n \<le> length (digits z) \<and> n \<le> length (digits x)
      then Some (z\<lparr>digits := take n (digits x) @ drop n (digits z)\<rparr>)
      else None)"

definition bigint_copy :: "bigint \<Rightarrow> nat \<Rightarrow> bigint option" where
  "bigint_copy x extra0 =
     (let extra1 = (if extra0 > MAX_EXTRA then MAX_EXTRA else extra0);
          z = bigint_alloc (count x + extra1) (bigint_is_neg x);
          z = z\<lparr>is_neg := is_neg x\<rparr>;
          z = bigint_trim_to z (count x) False
      in memcpy_digits z x (count x))"

definition bigint_ensure_unique :: "bool \<Rightarrow> bigint \<Rightarrow> bigint option" where
  "bigint_ensure_unique x_unique x = (if x_unique then Some x else bigint_copy x 0)"

text \<open>The decrement of the 15-bit field \<^verbatim>\<open>extra\<close> never wraps: it is positive here.\<close>
definition bigint_push :: "bigint \<Rightarrow> int \<Rightarrow> bigint option" where
  "bigint_push x0 d =
     (case (if extra x0 = 0 then bigint_copy x0 MAX_EXTRA else Some x0) of None \<Rightarrow> None
      | Some x \<Rightarrow>
         (case wr x (count x) d of None \<Rightarrow> None
          | Some x' \<Rightarrow> Some (x'\<lparr>count := count x' + 1, extra := (extra x' + 32767) mod 32768\<rparr>)))"


subsection \<open>Conversion from numbers\<close>

text \<open>\<^verbatim>\<open>SMALLINT_MAX\<close> and \<^verbatim>\<open>SMALLINT_MIN\<close> are macros of \<^verbatim>\<open>runtime/integer.h\<close>, which is not
  among the sources; the functions that use them take them as the arguments \<open>smax\<close> and
  \<open>smin\<close>.  \<^verbatim>\<open>integer_from_small(i)\<close> is \<open>Small i\<close>.\<close>

text \<open>Bigint to integer. Possibly converting to a small int.\<close>
definition integer_bigint :: "int \<Rightarrow> bigint \<Rightarrow> integer_t option" where
  "integer_bigint smax x =
     (if count x = 1 then
        (case rd x 0 of None \<Rightarrow> None
         | Some d \<Rightarrow>
            if d \<le> smax then Some (Small (if is_neg x then - d else d))
            else Some (Big x))
      else Some (Big x))"

text \<open>\<^verbatim>\<open>do { b = bigint_push(b, i%BASE); i /= BASE; } while (i > 0);\<close> with \<open>i \<ge> 0\<close>.\<close>
function from_int_loop :: "bigint \<Rightarrow> int \<Rightarrow> bigint option" where
  "from_int_loop b i =
     (case bigint_push b (i mod BASE) of None \<Rightarrow> None
      | Some b' \<Rightarrow> if i div BASE > 0 then from_int_loop b' (i div BASE) else Some b')"
  by pat_completeness auto
termination
  by (relation "measure (\<lambda>(b, i). nat i)") (auto simp: BASE_def)

definition bigint_from_int :: "int \<Rightarrow> bigint option" where
  "bigint_from_int i0 =
     (let neg = (i0 < 0);
          i = (if neg then - i0 else i0);
          b = bigint_alloc 0 neg
      in from_int_loop b i)"

text \<open>unpack to a bigint always\<close>
fun integer_to_bigint :: "integer_t \<Rightarrow> bigint option" where
  "integer_to_bigint (Big b) = Some b"
| "integer_to_bigint (Small i) = bigint_from_int i"

text \<open>Whether the buffer \<^verbatim>\<open>integer_to_bigint(x)\<close> returns is uniquely referenced: a buffer
  made from a small integer is fresh; for a big integer the host's answer \<open>u\<close> counts.\<close>
fun unique_of :: "bool \<Rightarrow> integer_t \<Rightarrow> bool" where
  "unique_of u (Big b) = u"
| "unique_of u (Small i) = True"

definition integer_from_big :: "int \<Rightarrow> integer_t option" where
  "integer_from_big i = map_option Big (bigint_from_int i)"

text \<open>Modelled from the spec: \<^verbatim>\<open>integer_from_int\<close> is an inline function of the absent
  \<^verbatim>\<open>runtime/integer.h\<close>; the spec's table of public operations says of \<open>from_int\<close>:
  "Routes to Small if in range."  Otherwise the source's \<^verbatim>\<open>integer_from_big\<close> applies.\<close>
definition integer_from_int :: "int \<Rightarrow> int \<Rightarrow> int \<Rightarrow> integer_t option" where
  "integer_from_int smin smax i =
     (if smin \<le> i \<and> i \<le> smax then Some (Small i) else integer_from_big i)"

subsection \<open>Negate, compare\<close>

definition bigint_neg :: "bool \<Rightarrow> bigint \<Rightarrow> bigint option" where
  "bigint_neg x_unique x =
     (case bigint_ensure_unique x_unique x of None \<Rightarrow> None
      | Some z \<Rightarrow> Some (z\<lparr>is_neg := \<not> is_neg z\<rparr>))"

text \<open>\<^verbatim>\<open>for (size_t i = cx; i > 0; ) { i--; if (x->digits[i] != y->digits[i]) return ...; }\<close>\<close>
fun compare_abs_scan :: "bigint \<Rightarrow> bigint \<Rightarrow> nat \<Rightarrow> int option" where
  "compare_abs_scan x y 0 = Some 0"
| "compare_abs_scan x y (Suc i) =
     (case rd x i of None \<Rightarrow> None
      | Some xi \<Rightarrow>
         (case rd y i of None \<Rightarrow> None
          | Some yi \<Rightarrow>
             if xi \<noteq> yi then Some (if xi > yi then 1 else - 1)
             else compare_abs_scan x y i))"

definition bigint_compare_abs :: "bigint \<Rightarrow> bigint \<Rightarrow> int option" where
  "bigint_compare_abs x y =
     (let cx = bigint_count x; cy = bigint_count y
      in if cx > cy then Some 1
         else if cx < cy then Some (- 1)
         else compare_abs_scan x y cx)"

definition bigint_compare :: "bigint \<Rightarrow> bigint \<Rightarrow> int option" where
  "bigint_compare x y =
     (if is_neg x \<noteq> is_neg y then Some (if is_neg y then 1 else - 1)
      else map_option (\<lambda>c. bigint_sign x * c) (bigint_compare_abs x y))"

subsection \<open>Add absolute\<close>

text \<open>First loop of \<^verbatim>\<open>bigint_add_abs\<close>: add y's digits.  State: \<open>(z, i, carry)\<close>.\<close>
function add_abs_digits ::
  "bool \<Rightarrow> bigint \<Rightarrow> bigint \<Rightarrow> nat \<Rightarrow> bigint \<Rightarrow> nat \<Rightarrow> int \<Rightarrow> (bigint \<times> nat \<times> int) option" where
  "add_abs_digits same x y cy z i carry =
     (if i < cy then
        (case rdx same x z i of None \<Rightarrow> None
         | Some xi \<Rightarrow>
            (case rd y i of None \<Rightarrow> None
             | Some yi \<Rightarrow>
                (let sum = xi + yi + carry;
                     carry' = (if sum \<ge> BASE then 1 else 0);
                     sum' = (if sum \<ge> BASE then sum - BASE else sum)
                 in case wr z i sum' of None \<Rightarrow> None
                    | Some z' \<Rightarrow> add_abs_digits same x y cy z' (i + 1) carry')))
      else Some (z, i, carry))"
  by pat_completeness auto
termination
  by (relation "measure (\<lambda>(same, x, y, cy, z, i, carry). cy - i)") auto

text \<open>Second loop: propagate the carry.\<close>
function add_abs_carry ::
  "bool \<Rightarrow> bigint \<Rightarrow> nat \<Rightarrow> bigint \<Rightarrow> nat \<Rightarrow> int \<Rightarrow> (bigint \<times> nat \<times> int) option" where
  "add_abs_carry same x cx z i carry =
     (if carry \<noteq> 0 \<and> i < cx then
        (case rdx same x z i of None \<Rightarrow> None
         | Some xi \<Rightarrow>
            (let sum = xi + carry;
                 carry' = (if sum \<ge> BASE then carry else 0);
                 sum' = (if sum \<ge> BASE then sum - BASE else sum)
             in case wr z i sum' of None \<Rightarrow> None
                | Some z' \<Rightarrow> add_abs_carry same x cx z' (i + 1) carry'))
      else Some (z, i, carry))"
  by pat_completeness auto
termination
  by (relation "measure (\<lambda>(same, x, cx, z, i, carry). cx - i)") auto

text \<open>\<^verbatim>\<open>for (; i < n; i++) { z->digits[i] = x->digits[i]; }\<close> with \<^verbatim>\<open>z != x\<close>.\<close>
function copy_digits_upto :: "bigint \<Rightarrow> bigint \<Rightarrow> nat \<Rightarrow> nat \<Rightarrow> (bigint \<times> nat) option" where
  "copy_digits_upto x z n i =
     (if i < n then
        (case rd x i of None \<Rightarrow> None
         | Some xi \<Rightarrow>
            (case wr z i xi of None \<Rightarrow> None
             | Some z' \<Rightarrow> copy_digits_upto x z' n (i + 1)))
      else Some (z, i))"
  by pat_completeness auto
termination
  by (relation "measure (\<lambda>(x, z, n, i). n - i)") auto

definition bigint_add_abs :: "bool \<Rightarrow> bigint \<Rightarrow> bigint \<Rightarrow> bigint option" where
  "bigint_add_abs x_unique x y = do {
     let cx = bigint_count x;
     let cy = bigint_count y;
     lx \<leftarrow> bigint_last_digit x;
     ly \<leftarrow> bigint_last_digit y;
     let cz = (if lx + ly + 1 \<ge> BASE then cx + 1 else cx);
     let (z0, same) = bigint_alloc_reuse x_unique x cz;
     (z1, i1, carry1) \<leftarrow> add_abs_digits same x y cy z0 0 0;
     (z2, i2, carry) \<leftarrow> add_abs_carry same x cx z1 i1 carry1;
     (z3, i3) \<leftarrow> (if i2 < cx \<and> \<not> same then copy_digits_upto x z2 cx i2 else Some (z2, cx));
     (z4, i4) \<leftarrow> (if carry \<noteq> 0 then map_option (\<lambda>z. (z, i3 + 1)) (wr z3 i3 carry)
                  else Some (z3, i3));
     Some (bigint_trim_to z4 i4 True)
   }"

subsection \<open>Subtract absolute\<close>

text \<open>First loop of \<^verbatim>\<open>bigint_sub_abs\<close>: subtract y's digits.  State: \<open>(z, i, borrow)\<close>.\<close>
function sub_abs_digits ::
  "bool \<Rightarrow> bigint \<Rightarrow> bigint \<Rightarrow> nat \<Rightarrow> bigint \<Rightarrow> nat \<Rightarrow> int \<Rightarrow> (bigint \<times> nat \<times> int) option" where
  "sub_abs_digits same x y cy z i borrow =
     (if i < cy then
        (case rdx same x z i of None \<Rightarrow> None
         | Some xi \<Rightarrow>
            (case rd y i of None \<Rightarrow> None
             | Some yi \<Rightarrow>
                (let diff = xi - borrow - yi;
                     borrow' = (if diff < 0 then 1 else 0);
                     diff' = (if diff < 0 then diff + BASE else diff)
                 in case wr z i diff' of None \<Rightarrow> None
                    | Some z' \<Rightarrow> sub_abs_digits same x y cy z' (i + 1) borrow')))
      else Some (z, i, borrow))"
  by pat_completeness auto
termination
  by (relation "measure (\<lambda>(same, x, y, cy, z, i, borrow). cy - i)") auto

text \<open>Second loop: propagate borrow.\<close>
function sub_abs_borrow ::
  "bool \<Rightarrow> bigint \<Rightarrow> nat \<Rightarrow> bigint \<Rightarrow> nat \<Rightarrow> int \<Rightarrow> (bigint \<times> nat \<times> int) option" where
  "sub_abs_borrow same x cx z i borrow =
     (if borrow \<noteq> 0 \<and> i < cx then
        (case rdx same x z i of None \<Rightarrow> None
         | Some xi \<Rightarrow>
            (let diff = xi - borrow;
                 borrow' = (if diff < 0 then borrow else 0);
                 diff' = (if diff < 0 then diff + BASE else diff)
             in case wr z i diff' of None \<Rightarrow> None
                | Some z' \<Rightarrow> sub_abs_borrow same x cx z' (i + 1) borrow'))
      else Some (z, i, borrow))"
  by pat_completeness auto
termination
  by (relation "measure (\<lambda>(same, x, cx, z, i, borrow). cx - i)") auto

text \<open>The tail copy of \<^verbatim>\<open>bigint_sub_abs\<close> runs \<^verbatim>\<open>for (; i <= cx; i++)\<close>, that is up to
  \<open>cx + 1\<close> exclusive.\<close>
definition bigint_sub_abs :: "bool \<Rightarrow> bigint \<Rightarrow> bigint \<Rightarrow> bigint option" where
  "bigint_sub_abs x_unique x y = do {
     let cx = bigint_count x;
     let cy = bigint_count y;
     let (z0, same) = bigint_alloc_reuse x_unique x cx;
     (z1, i1, borrow1) \<leftarrow> sub_abs_digits same x y cy z0 0 0;
     (z2, i2, borrow) \<leftarrow> sub_abs_borrow same x cx z1 i1 borrow1;
     (z3, i3) \<leftarrow> (if \<not> same then copy_digits_upto x z2 (cx + 1) i2 else Some (z2, i2));
     bigint_trim z3 True
   }"

subsection \<open>Addition and subtraction\<close>

function bigint_add :: "bool \<Rightarrow> bool \<Rightarrow> bigint \<Rightarrow> bigint \<Rightarrow> bool \<Rightarrow> bigint option"
  and bigint_sub :: "bool \<Rightarrow> bool \<Rightarrow> bigint \<Rightarrow> bigint \<Rightarrow> bool \<Rightarrow> bigint option" where
  "bigint_add x_unique y_unique x y yneg =
     (if bigint_is_neg x \<noteq> yneg then bigint_sub x_unique y_unique x y (\<not> yneg)
      else
        (case (if bigint_count x < bigint_count y then bigint_add_abs y_unique y x
               else bigint_add_abs x_unique x y) of None \<Rightarrow> None
         | Some z \<Rightarrow> Some (z\<lparr>is_neg := yneg\<rparr>)))"
| "bigint_sub x_unique y_unique x y yneg =
     (if bigint_is_neg x \<noteq> yneg then bigint_add x_unique y_unique x y (\<not> yneg)
      else
        (case bigint_compare_abs x y of None \<Rightarrow> None
         | Some c \<Rightarrow>
            if c \<ge> 0 then bigint_sub_abs x_unique x y
            else
              (case bigint_sub_abs y_unique y x of None \<Rightarrow> None
               | Some z \<Rightarrow> Some (z\<lparr>is_neg := \<not> yneg\<rparr>))))"
  by pat_completeness auto
termination
  by (relation "measure (\<lambda>v. case v of
          Inl (ux, uy, x, y, yneg) \<Rightarrow> (if bigint_is_neg x \<noteq> yneg then 1 else 0)
        | Inr (ux, uy, x, y, yneg) \<Rightarrow> (if bigint_is_neg x \<noteq> yneg then 1 else 0))") auto

subsection \<open>Integer interface\<close>

definition integer_neg_generic :: "int \<Rightarrow> bool \<Rightarrow> integer_t \<Rightarrow> integer_t option" where
  "integer_neg_generic smax u x = do {
     bx \<leftarrow> integer_to_bigint x;
     z \<leftarrow> bigint_neg (unique_of u x) bx;
     integer_bigint smax z
   }"

text \<open>\<^verbatim>\<open>(bx->is_neg ? -1 : ((bx->count==0 && bx->digits[0]==0) ? 0 : 1))\<close>\<close>
definition integer_signum_generic :: "integer_t \<Rightarrow> int option" where
  "integer_signum_generic x = do {
     bx \<leftarrow> integer_to_bigint x;
     if is_neg bx then Some (- 1)
     else if count bx = 0 then
       (case rd bx 0 of None \<Rightarrow> None
        | Some d \<Rightarrow> Some (if d = 0 then 0 else 1))
     else Some 1
   }"

definition integer_add_generic :: "int \<Rightarrow> bool \<Rightarrow> bool \<Rightarrow> integer_t \<Rightarrow> integer_t \<Rightarrow> integer_t option" where
  "integer_add_generic smax ux uy x y = do {
     bx \<leftarrow> integer_to_bigint x;
     by \<leftarrow> integer_to_bigint y;
     z \<leftarrow> bigint_add (unique_of ux x) (unique_of uy y) bx by (is_neg by);
     integer_bigint smax z
   }"

definition integer_sub_generic :: "int \<Rightarrow> bool \<Rightarrow> bool \<Rightarrow> integer_t \<Rightarrow> integer_t \<Rightarrow> integer_t option" where
  "integer_sub_generic smax ux uy x y = do {
     bx \<leftarrow> integer_to_bigint x;
     by \<leftarrow> integer_to_bigint y;
     z \<leftarrow> bigint_sub (unique_of ux x) (unique_of uy y) bx by (is_neg by);
     integer_bigint smax z
   }"


subsection \<open>Multiply by a small number\<close>

text \<open>C's \<^verbatim>\<open>/\<close> and \<^verbatim>\<open>%\<close> on signed integers truncate toward zero.\<close>
definition c_div :: "int \<Rightarrow> int \<Rightarrow> int" where
  "c_div a b = sgn a * sgn b * (\<bar>a\<bar> div \<bar>b\<bar>)"

definition c_mod :: "int \<Rightarrow> int \<Rightarrow> int" where
  "c_mod a b = a - c_div a b * b"

text \<open>Loop of \<^verbatim>\<open>bigint_mul_small\<close>.  State: \<open>(z, i, carry)\<close>.\<close>
function mul_small_digits ::
  "bool \<Rightarrow> bigint \<Rightarrow> int \<Rightarrow> nat \<Rightarrow> bigint \<Rightarrow> nat \<Rightarrow> int \<Rightarrow> (bigint \<times> nat \<times> int) option" where
  "mul_small_digits same x y cx z i carry =
     (if i < cx then
        (case rdx same x z i of None \<Rightarrow> None
         | Some xi \<Rightarrow>
            (let prod = xi * y + carry;
                 carry' = c_div prod BASE
             in case wr z i (prod - carry' * BASE) of None \<Rightarrow> None
                | Some z' \<Rightarrow> mul_small_digits same x y cx z' (i + 1) carry'))
      else Some (z, i, carry))"
  by pat_completeness auto
termination
  by (relation "measure (\<lambda>(same, x, y, cx, z, i, carry). cx - i)") auto

text \<open>\<^verbatim>\<open>while (carry > 0) { z->digits[i++] = carry % BASE; carry /= BASE; }\<close>\<close>
function mul_small_carry :: "bigint \<Rightarrow> nat \<Rightarrow> int \<Rightarrow> (bigint \<times> nat) option" where
  "mul_small_carry z i carry =
     (if carry > 0 then
        (case wr z i (c_mod carry BASE) of None \<Rightarrow> None
         | Some z' \<Rightarrow> mul_small_carry z' (i + 1) (c_div carry BASE))
      else Some (z, i))"
  by pat_completeness auto
termination
  by (relation "measure (\<lambda>(z, i, carry). nat carry)") (auto simp: c_div_def BASE_def)

definition bigint_mul_small :: "bool \<Rightarrow> bigint \<Rightarrow> int \<Rightarrow> bigint option" where
  "bigint_mul_small x_unique x y0 = do {
     let cx = bigint_count x;
     let neg = (bigint_is_neg x \<and> y0 < 0);
     let cz = cx + 1;
     let (z0, same) = bigint_alloc_reuse x_unique x cz;
     let y = (if y0 < 0 then - y0 else y0);
     (z1, i1, carry) \<leftarrow> mul_small_digits same x y cx z0 0 0;
     (z2, i) \<leftarrow> mul_small_carry z1 i1 carry;
     z3 \<leftarrow> (if neg \<and> \<not> bigint_is_neg z2 then bigint_neg True z2 else Some z2);
     Some (bigint_trim_to z3 i True)
   }"

subsection \<open>Multiply, Karatsuba multiplication\<close>

text \<open>The inner loop of \<^verbatim>\<open>bigint_mul\<close>:
  \<^verbatim>\<open>prod = (dx * dy) + z->digits[i+j]; carry = prod/BASE; z->digits[i+j] = prod - carry*BASE;
  z->digits[i+j+1] += carry;\<close>  State: \<open>z\<close>.\<close>
function mul_inner :: "bigint \<Rightarrow> int \<Rightarrow> nat \<Rightarrow> nat \<Rightarrow> bigint \<Rightarrow> nat \<Rightarrow> bigint option" where
  "mul_inner y dx i cy z j =
     (if j < cy then
        (case rd y j of None \<Rightarrow> None
         | Some dy \<Rightarrow>
            (case rd z (i + j) of None \<Rightarrow> None
             | Some zij \<Rightarrow>
                (let prod = dx * dy + zij;
                     carry = c_div prod BASE
                 in case wr z (i + j) (prod - carry * BASE) of None \<Rightarrow> None
                    | Some z1 \<Rightarrow>
                       (case rd z1 (i + j + 1) of None \<Rightarrow> None
                        | Some zn \<Rightarrow>
                           (case wr z1 (i + j + 1) (zn + carry) of None \<Rightarrow> None
                            | Some z2 \<Rightarrow> mul_inner y dx i cy z2 (j + 1))))))
      else Some z)"
  by pat_completeness auto
termination
  by (relation "measure (\<lambda>(y, dx, i, cy, z, j). cy - j)") auto

text \<open>The outer loop.\<close>
function mul_outer :: "bigint \<Rightarrow> bigint \<Rightarrow> nat \<Rightarrow> nat \<Rightarrow> bigint \<Rightarrow> nat \<Rightarrow> bigint option" where
  "mul_outer x y cx cy z i =
     (if i < cx then
        (case rd x i of None \<Rightarrow> None
         | Some dx \<Rightarrow>
            (case mul_inner y dx i cy z 0 of None \<Rightarrow> None
             | Some z' \<Rightarrow> mul_outer x y cx cy z' (i + 1)))
      else Some z)"
  by pat_completeness auto
termination
  by (relation "measure (\<lambda>(x, y, cx, cy, z, i). cx - i)") auto

definition bigint_mul :: "bigint \<Rightarrow> bigint \<Rightarrow> bigint option" where
  "bigint_mul x y = do {
     let cx = bigint_count x;
     let cy = bigint_count y;
     let neg = (bigint_is_neg x \<noteq> bigint_is_neg y);
     let z = bigint_alloc_zero (cx + cy) neg;
     z' \<leftarrow> mul_outer x y cx cy z 0;
     bigint_trim z' True
   }"

text \<open>\<^verbatim>\<open>memmove(&z->digits[digits], &x->digits[0], sizeof(digit_t)*cx);
  memset(&z->digits[0], 0, sizeof(digit_t)*digits);\<close>  When \<open>z\<close> is \<open>x\<close> itself the source of
  the move is the current \<open>z\<close>.\<close>
definition bigint_shift_left :: "bool \<Rightarrow> bigint \<Rightarrow> int \<Rightarrow> bigint option" where
  "bigint_shift_left x_unique x dg =
     (if dg \<le> 0 then Some x
      else
        (let cx = count x;
             d = nat dg;
             (z, same) = bigint_alloc_reuse x_unique x (count x + d);
             src = digits (if same then z else x)
         in if d + cx \<le> length (digits z) \<and> cx \<le> length src
            then Some (z\<lparr>digits := replicate d 0 @ take cx src @ drop (d + cx) (digits z)\<rparr>)
            else None))"

text \<open>\<^verbatim>\<open>bigint_slice(x, lo, hi)\<close>.  \<^verbatim>\<open>hi - lo\<close> is a \<^verbatim>\<open>size_t\<close>; with \<open>hi < lo\<close> it wraps around
  to an allocation that cannot be made.  The slice never releases its argument.\<close>
definition bigint_slice :: "bool \<Rightarrow> bigint \<Rightarrow> nat \<Rightarrow> nat \<Rightarrow> bigint option" where
  "bigint_slice x_unique x lo0 hi0 =
     (if lo0 = 0 \<and> x_unique then Some (bigint_trim_to x hi0 False)
      else
        (let lo = (if lo0 \<ge> count x then count x else lo0);
             hi = (if hi0 > count x then count x else hi0)
         in if hi < lo then None
            else
              (let cz = hi - lo;
                   z = bigint_alloc cz (is_neg x)
               in if cz = 0 then
                    (case wr z 0 0 of None \<Rightarrow> None
                     | Some z' \<Rightarrow> Some (z'\<lparr>count := 1, extra := (extra z' + 32767) mod 32768\<rparr>))
                  else if lo < count x then
                    (if cz \<le> length (digits z) \<and> lo + cz \<le> length (digits x)
                     then Some (z\<lparr>digits := take cz (drop lo (digits x)) @ drop cz (digits z)\<rparr>)
                     else None)
                  else Some z)))"

text \<open>
  \<^verbatim>\<open>bigint_mul_karatsuba(x, y)\<close>.  The function calls itself three times on operands of
  about half the size; it is written as a partial function, and \<open>None\<close> stands for an access
  outside a buffer in one of its steps or for not returning.

  The answers of \<^verbatim>\<open>bigint_is_unique_\<close> inside the function follow from its own reference
  counting:
  \<^item> both \<^verbatim>\<open>bigint_slice\<close> calls on \<^verbatim>\<open>x\<close> (and on \<^verbatim>\<open>y\<close>) come after \<^verbatim>\<open>bigint_dup(x)\<close>, and the
    slice never releases its argument: \<^verbatim>\<open>x\<close> is not unique, the slices are fresh copies;
  \<^item> \<^verbatim>\<open>a\<close> and \<^verbatim>\<open>c\<close> are passed on as \<^verbatim>\<open>bigint_dup(a)\<close>, \<^verbatim>\<open>bigint_dup(c)\<close>; the call releases them
    again (in \<^verbatim>\<open>bigint_mul\<close>) exactly when it takes the schoolbook branch, so \<^verbatim>\<open>a\<close> and \<^verbatim>\<open>c\<close>
    are unique afterwards iff \<open>max (count a) (count c) \<le> 25\<close>; likewise \<^verbatim>\<open>b\<close> and \<^verbatim>\<open>d\<close>;
  \<^item> \<^verbatim>\<open>abcd\<close> and the results of \<^verbatim>\<open>bigint_sub\<close>, \<^verbatim>\<open>bigint_add\<close> and \<^verbatim>\<open>bigint_shift_left\<close> are
    fresh or reused unique buffers; \<^verbatim>\<open>bigint_dup(ac)\<close> and \<^verbatim>\<open>bigint_dup(bd)\<close> are shared while
    they are subtracted, and \<^verbatim>\<open>ac\<close> and \<^verbatim>\<open>bd\<close> are unique again afterwards.
\<close>
partial_function (option) bigint_mul_karatsuba :: "bigint \<Rightarrow> bigint \<Rightarrow> bigint option" where
  "bigint_mul_karatsuba x y =
     (if max (count x) (count y) \<le> 25 then bigint_mul x y
      else
        (let n = (max (count x) (count y) + 1) div 2 in
         Option.bind (bigint_slice False x n (count x)) (\<lambda>b.
         Option.bind (bigint_slice False x 0 n) (\<lambda>a.
         Option.bind (bigint_slice False y n (count y)) (\<lambda>d.
         Option.bind (bigint_slice False y 0 n) (\<lambda>c.
         Option.bind (bigint_mul_karatsuba a c) (\<lambda>ac.
         Option.bind (bigint_mul_karatsuba b d) (\<lambda>bd.
         Option.bind (bigint_add (max (count a) (count c) \<le> 25) (max (count b) (count d) \<le> 25)
                        a b (is_neg b)) (\<lambda>ab.
         Option.bind (bigint_add (max (count a) (count c) \<le> 25) (max (count b) (count d) \<le> 25)
                        c d (is_neg d)) (\<lambda>cd.
         Option.bind (bigint_mul_karatsuba ab cd) (\<lambda>abcd.
         Option.bind (bigint_sub True False abcd ac (is_neg ac)) (\<lambda>s1.
         Option.bind (bigint_sub True False s1 bd (is_neg bd)) (\<lambda>s2.
         Option.bind (bigint_shift_left True s2 (int n)) (\<lambda>p1.
         Option.bind (bigint_shift_left True bd (2 * int n)) (\<lambda>p2.
         Option.bind (bigint_add True True ac p1 (is_neg p1)) (\<lambda>t.
         Option.bind (bigint_add True True t p2 (is_neg p2)) (\<lambda>prod.
         bigint_trim prod True)))))))))))))))))"

subsection \<open>Division\<close>

text \<open>Loop of \<^verbatim>\<open>bigint_div_mod_small\<close>, from the top digit down.  State: \<open>(z, mod)\<close>.\<close>
fun div_mod_small_digits ::
  "bool \<Rightarrow> bigint \<Rightarrow> int \<Rightarrow> bigint \<Rightarrow> nat \<Rightarrow> int \<Rightarrow> (bigint \<times> int) option" where
  "div_mod_small_digits same x y z 0 md = Some (z, md)"
| "div_mod_small_digits same x y z (Suc i) md =
     (case rdx same x z i of None \<Rightarrow> None
      | Some xi \<Rightarrow>
         (let dv = md * BASE + xi;
              q = c_div dv y;
              md' = dv - q * y
          in case wr z i q of None \<Rightarrow> None
             | Some z' \<Rightarrow> div_mod_small_digits same x y z' i md'))"

text \<open>Returns the quotient and what the source stores through \<^verbatim>\<open>pmod\<close>.  A zero \<^verbatim>\<open>y\<close> is a
  division by zero in C.\<close>
definition bigint_div_mod_small :: "bool \<Rightarrow> bigint \<Rightarrow> int \<Rightarrow> (bigint \<times> int) option" where
  "bigint_div_mod_small x_unique x y = do {
     let cx = bigint_count x;
     let (z0, same) = bigint_alloc_reuse x_unique x cx;
     (z1, md) \<leftarrow> (if y = 0 then None else div_mod_small_digits same x y z0 cx 0);
     z \<leftarrow> bigint_trim z1 True;
     Some (z, md)
   }"

text \<open>First inner loop of \<^verbatim>\<open>bigint_div_mod\<close>: subtract \<open>qd * div\<close> from the window of
  \<open>rem\<close> at \<open>shift\<close>.  State: \<open>(rem, carry, borrow)\<close>.\<close>
function div_mod_mulsub ::
  "int \<Rightarrow> bigint \<Rightarrow> nat \<Rightarrow> nat \<Rightarrow> bigint \<Rightarrow> nat \<Rightarrow> int \<Rightarrow> int \<Rightarrow> (bigint \<times> int \<times> int) option" where
  "div_mod_mulsub qd dv shift cd rem i carry borrow =
     (if i < cd then
        (case rd dv i of None \<Rightarrow> None
         | Some di \<Rightarrow>
            (case rd rem (shift + i) of None \<Rightarrow> None
             | Some ri \<Rightarrow>
                (let carry1 = carry + qd * di;
                     q = c_div carry1 BASE;
                     borrow1 = borrow + (ri - (carry1 - q * BASE))
                 in case wr rem (shift + i) (if borrow1 < 0 then borrow1 + BASE else borrow1) of
                      None \<Rightarrow> None
                    | Some rem' \<Rightarrow>
                        div_mod_mulsub qd dv shift cd rem' (i + 1) q
                          (if borrow1 < 0 then - 1 else 0))))
      else Some (rem, carry, borrow))"
  by pat_completeness auto
termination
  by (relation "measure (\<lambda>(qd, dv, shift, cd, rem, i, carry, borrow). cd - i)") auto

text \<open>The loop inside \<^verbatim>\<open>while (borrow != 0)\<close>: add \<open>div\<close> back.  State: \<open>(rem, carry)\<close>.\<close>
function div_mod_addback ::
  "bigint \<Rightarrow> nat \<Rightarrow> nat \<Rightarrow> bigint \<Rightarrow> nat \<Rightarrow> int \<Rightarrow> (bigint \<times> int) option" where
  "div_mod_addback dv shift cd rem i carry =
     (if i < cd then
        (case rd rem (shift + i) of None \<Rightarrow> None
         | Some ri \<Rightarrow>
            (case rd dv i of None \<Rightarrow> None
             | Some di \<Rightarrow>
                (let carry1 = carry + (ri - BASE + di)
                 in case wr rem (shift + i) (if carry1 < 0 then carry1 + BASE else carry1) of
                      None \<Rightarrow> None
                    | Some rem' \<Rightarrow>
                        div_mod_addback dv shift cd rem' (i + 1) (if carry1 < 0 then 0 else 1))))
      else Some (rem, carry))"
  by pat_completeness auto
termination
  by (relation "measure (\<lambda>(dv, shift, cd, rem, i, carry). cd - i)") auto

text \<open>\<^verbatim>\<open>while (borrow != 0) { qd--; ...; borrow += carry; }\<close>.  Nothing in the loop itself bounds
  the number of rounds, so the function is partial: \<open>None\<close> also stands for a loop that
  never ends.  State: \<open>(rem, qd, borrow)\<close>.\<close>
partial_function (option) div_mod_fixup ::
  "bigint \<Rightarrow> nat \<Rightarrow> nat \<Rightarrow> bigint \<Rightarrow> int \<Rightarrow> int \<Rightarrow> (bigint \<times> int) option" where
  "div_mod_fixup dv shift cd rem qd borrow =
     (if borrow \<noteq> 0 then
        Option.bind (div_mod_addback dv shift cd rem 0 0)
          (\<lambda>r. div_mod_fixup dv shift cd (fst r) (qd - 1) (borrow + snd r))
      else Some (rem, qd))"

text \<open>One round of the main loop, for one value of \<open>shift\<close>.  State: \<open>(rem, z)\<close>.  With
  \<open>cy = 0\<close> the index \<open>shift + cy - 1\<close> can fall below zero, and a zero \<open>divisorHi\<close> is a
  division by zero.\<close>
definition div_mod_step ::
  "bigint \<Rightarrow> int \<Rightarrow> nat \<Rightarrow> nat \<Rightarrow> bigint \<times> bigint \<Rightarrow> (bigint \<times> bigint) option" where
  "div_mod_step dv divisorHi cy shift st = do {
     let (rem, z) = st;
     top \<leftarrow> rd rem (shift + cy);
     qd \<leftarrow> (if top \<noteq> divisorHi then
              (if shift + cy = 0 \<or> divisorHi = 0 then None
               else do {
                 nxt \<leftarrow> rd rem (shift + cy - 1);
                 Some (c_div (top * BASE + nxt) divisorHi)
               })
            else Some (BASE - 1));
     let cd = count dv;
     (rem1, carry, borrow) \<leftarrow> div_mod_mulsub qd dv shift cd rem 0 0 0;
     (rem2, qd2) \<leftarrow> div_mod_fixup dv shift cd rem1 qd borrow;
     z' \<leftarrow> wr z shift qd2;
     Some (rem2, z')
   }"

text \<open>\<^verbatim>\<open>for (intptr_t shift = cx - cy; shift >= 0; shift--)\<close>: the argument is the number of
  rounds left, \<open>shift + 1\<close>.\<close>
fun div_mod_loop ::
  "bigint \<Rightarrow> int \<Rightarrow> nat \<Rightarrow> nat \<Rightarrow> bigint \<times> bigint \<Rightarrow> (bigint \<times> bigint) option" where
  "div_mod_loop dv divisorHi cy 0 st = Some st"
| "div_mod_loop dv divisorHi cy (Suc shift) st =
     (case div_mod_step dv divisorHi cy shift st of None \<Rightarrow> None
      | Some st' \<Rightarrow> div_mod_loop dv divisorHi cy shift st')"

text \<open>Returns the quotient and, when \<^verbatim>\<open>pmod != NULL\<close> (\<open>want_mod\<close>), the remainder.  The source
  asserts \<open>cx \<ge> cy\<close>; with \<open>cx < cy\<close> the unsigned \<open>cx - cy + 1\<close> wraps around, which is
  treated as having no result.\<close>
definition bigint_div_mod ::
  "bool \<Rightarrow> bool \<Rightarrow> bigint \<Rightarrow> bigint \<Rightarrow> bool \<Rightarrow> (bigint \<times> bigint option) option" where
  "bigint_div_mod x_unique y_unique x y want_mod = do {
     let cx = bigint_count x;
     let cy = bigint_count y;
     let neg = (bigint_is_neg x \<noteq> bigint_is_neg y);
     z0 \<leftarrow> (if cx < cy then None else Some (bigint_alloc_zero (cx - cy + 1) neg));
     divisorHi0 \<leftarrow> bigint_last_digit y;
     lambda \<leftarrow> (if divisorHi0 = 0 then None
                else Some (c_div (BASE + 2 * divisorHi0 - 1) (2 * divisorHi0)));
     rem0 \<leftarrow> bigint_mul_small x_unique x lambda;
     rem1 \<leftarrow> (if count rem0 \<le> cx then bigint_push rem0 0 else Some rem0);
     dv0 \<leftarrow> bigint_mul_small y_unique y lambda;
     divisorHi \<leftarrow> bigint_last_digit dv0;
     dv \<leftarrow> bigint_push dv0 0;
     (rem, z1) \<leftarrow> div_mod_loop dv divisorHi cy (cx - cy + 1) (rem1, z0);
     pmod \<leftarrow> (if want_mod then map_option (\<lambda>r. Some (fst r)) (bigint_div_mod_small True rem lambda)
              else Some None);
     z \<leftarrow> bigint_trim z1 True;
     Some (z, pmod)
   }"

subsection \<open>Division and modulus on integers\<close>

text \<open>Modelled from the spec: \<^verbatim>\<open>integer_neg\<close> is an inline function of the absent
  \<^verbatim>\<open>runtime/integer.h\<close>; by the spec's section on the value facade an operation takes the
  fast path on a Small operand when the result provably fits and otherwise calls the
  generic operation, here \<^verbatim>\<open>integer_neg_generic\<close>.\<close>
definition integer_neg :: "int \<Rightarrow> int \<Rightarrow> bool \<Rightarrow> integer_t \<Rightarrow> integer_t option" where
  "integer_neg smin smax u x =
     (case x of
        Small i \<Rightarrow> if smin \<le> - i \<and> - i \<le> smax then Some (Small (- i))
                   else integer_neg_generic smax u x
      | Big b \<Rightarrow> integer_neg_generic smax u x)"

text \<open>A function of the C file without a result in the model (\<open>None\<close>) has undefined
  behaviour or does not return.\<close>
fun ub :: "'a option \<Rightarrow> error + 'a" where
  "ub None = Inl UndefinedBehaviour"
| "ub (Some v) = Inr v"

text \<open>The part of \<^verbatim>\<open>integer_div_mod_generic\<close> after the small-divisor cases ("full
  division").\<close>
definition integer_div_mod_full ::
  "int \<Rightarrow> bool \<Rightarrow> bool \<Rightarrow> integer_t \<Rightarrow> integer_t \<Rightarrow> bool \<Rightarrow> (integer_t \<times> integer_t option) option" where
  "integer_div_mod_full smax ux uy x y want_mod = do {
     bx \<leftarrow> integer_to_bigint x;
     by \<leftarrow> integer_to_bigint y;
     cmp \<leftarrow> bigint_compare_abs bx by;
     if cmp < 0 then Some (Small 0, if want_mod then Some x else None)
     else if cmp = 0 then
       Some (Small (if bigint_is_neg bx = bigint_is_neg by then 1 else - 1),
             if want_mod then Some (Small 0) else None)
     else do {
       let qneg = (bigint_is_neg bx \<noteq> bigint_is_neg by);
       let mneg = bigint_is_neg bx;
       (bz, bmod) \<leftarrow> bigint_div_mod (unique_of ux x) (unique_of uy y) bx by want_mod;
       md \<leftarrow> (case bmod of None \<Rightarrow> Some None
              | Some m \<Rightarrow> map_option Some (integer_bigint smax (m\<lparr>is_neg := mneg\<rparr>)));
       q \<leftarrow> integer_bigint smax (bz\<lparr>is_neg := qneg\<rparr>);
       Some (q, md)
     }
   }"

text \<open>
  \<^verbatim>\<open>integer_div_mod_generic(x, y, mod)\<close>.  \<open>want_mod\<close> is \<^verbatim>\<open>mod != NULL\<close>; the second component
  of the result is what the function stores through \<^verbatim>\<open>mod\<close>.  On a zero divisor the source
  executes \<^verbatim>\<open>return 0; // raise div-by-zero\<close>: it returns the null box instead of a boxed
  integer and stores nothing; that outcome is \<open>Inl DivisionByZero\<close>.
\<close>
definition integer_div_mod_generic ::
  "int \<Rightarrow> int \<Rightarrow> bool \<Rightarrow> bool \<Rightarrow> integer_t \<Rightarrow> integer_t \<Rightarrow> bool
    \<Rightarrow> error + (integer_t \<times> integer_t option)" where
  "integer_div_mod_generic smin smax ux uy x y want_mod =
     (case y of
        Small iy \<Rightarrow>
          if iy = 0 then Inl DivisionByZero
          else if iy = 1 then Inr (x, if want_mod then Some (Small 0) else None)
          else if iy = - 1 then
            ub (map_option (\<lambda>q. (q, if want_mod then Some (Small 0) else None))
                  (integer_neg smin smax ux x))
          else
            (let ay_neg = (iy < 0);
                 ay = (if ay_neg then - iy else iy)
             in if ay < BASE then
                  ub (do {
                    bx \<leftarrow> integer_to_bigint x;
                    let xneg = bigint_is_neg bx;
                    (bz, imod0) \<leftarrow> bigint_div_mod_small (unique_of ux x) bx ay;
                    let imod = (if xneg then - imod0 else imod0);
                    md \<leftarrow> (if want_mod then map_option Some (integer_from_int smin smax imod)
                           else Some None);
                    q \<leftarrow> integer_bigint smax (bz\<lparr>is_neg := (xneg \<noteq> ay_neg)\<rparr>);
                    Some (q, md)
                  })
                else ub (integer_div_mod_full smax ux uy x y want_mod))
      | Big by \<Rightarrow> ub (integer_div_mod_full smax ux uy x y want_mod))"

definition integer_div_generic ::
  "int \<Rightarrow> int \<Rightarrow> bool \<Rightarrow> bool \<Rightarrow> integer_t \<Rightarrow> integer_t \<Rightarrow> error + integer_t" where
  "integer_div_generic smin smax ux uy x y =
     (case integer_div_mod_generic smin smax ux uy x y False of
        Inl e \<Rightarrow> Inl e
      | Inr (q, md) \<Rightarrow> Inr q)"

text \<open>
  \<^verbatim>\<open>integer_t mod = 0; integer_t div = integer_div_mod_generic(x, y, &mod); ...; return mod;\<close>
  When the call stores nothing, \<^verbatim>\<open>mod\<close> is still the null box \<^verbatim>\<open>0\<close>, the same word that
  \<^verbatim>\<open>integer_div_mod_generic\<close> returns on a zero divisor.
\<close>
definition integer_mod_generic ::
  "int \<Rightarrow> int \<Rightarrow> bool \<Rightarrow> bool \<Rightarrow> integer_t \<Rightarrow> integer_t \<Rightarrow> error + integer_t" where
  "integer_mod_generic smin smax ux uy x y =
     (case integer_div_mod_generic smin smax ux uy x y True of
        Inl e \<Rightarrow> Inl e
      | Inr (q, None) \<Rightarrow> Inl DivisionByZero
      | Inr (q, Some md) \<Rightarrow> Inr md)"

subsection \<open>To string\<close>

text \<open>\<^verbatim>\<open>for (intptr_t i = LOG_BASE - 1; i >= 0; i--, d /= 10) { buf[i] = '0' + (d % 10); }\<close>:
  the argument \<open>n\<close> counts the characters still to write, from the right.\<close>
fun digit_to_str_loop :: "nat \<Rightarrow> int \<Rightarrow> string" where
  "digit_to_str_loop 0 d = []"
| "digit_to_str_loop (Suc n) d = digit_to_str_loop n (c_div d 10) @ [char_of (48 + c_mod d 10)]"

text \<open>Convert a digit to \<open>LOG_BASE\<close> characters.\<close>
definition digit_to_str_full :: "int \<Rightarrow> string" where
  "digit_to_str_full d = digit_to_str_loop LOG_BASE d"

text \<open>convert digit to characters but skip leading zeros. No output if \<open>d==0\<close>.\<close>
definition digit_to_str_partial :: "int \<Rightarrow> string" where
  "digit_to_str_partial d =
     (if d = 0 then [] else dropWhile (\<lambda>c. c = CHR ''0'') (digit_to_str_full d))"

text \<open>\<^verbatim>\<open>while (i > 0 && b->digits[i]==0) { i--; }\<close>\<close>
fun skip_leading_zeros :: "bigint \<Rightarrow> nat \<Rightarrow> nat option" where
  "skip_leading_zeros b 0 = Some 0"
| "skip_leading_zeros b (Suc i) =
     (case rd b (Suc i) of None \<Rightarrow> None
      | Some d \<Rightarrow> if d = 0 then skip_leading_zeros b i else Some (Suc i))"

text \<open>"and output the rest of the digits": the digits \<open>n - 1, ..., 0\<close>, each in full.\<close>
fun rest_digits_to_str :: "bigint \<Rightarrow> nat \<Rightarrow> string option" where
  "rest_digits_to_str b 0 = Some []"
| "rest_digits_to_str b (Suc n) =
     (case rd b n of None \<Rightarrow> None
      | Some d \<Rightarrow>
         (case rest_digits_to_str b n of None \<Rightarrow> None
          | Some r \<Rightarrow> Some (digit_to_str_full d @ r)))"

text \<open>\<^verbatim>\<open>bigint_to_buf_\<close> as \<^verbatim>\<open>bigint_to_string\<close> calls it: the buffer has the size the first call
  asks for, \<open>count * LOG_BASE + 2\<close> at most, and the characters written before the final
  \<^verbatim>\<open>NUL\<close> are the result.\<close>
definition bigint_to_buf :: "bigint \<Rightarrow> string option" where
  "bigint_to_buf b =
     (let sign = (if bigint_is_neg b then ''-'' else [])
      in if bigint_count b = 0 then Some sign
         else do {
           i \<leftarrow> skip_leading_zeros b (bigint_count b - 1);
           d \<leftarrow> rd b i;
           r \<leftarrow> rest_digits_to_str b i;
           Some (sign @ digit_to_str_partial d @ r)
         })"

definition bigint_to_string :: "bigint \<Rightarrow> string option" where
  "bigint_to_string b = bigint_to_buf b"

text \<open>\<^verbatim>\<open>for (; i < 63 && n != 0; i++, n /= 10) { buf[i] = '0' + n%10; }\<close>: the characters in the
  order they are written, lowest digit first.\<close>
function int_to_string_loop :: "nat \<Rightarrow> int \<Rightarrow> string" where
  "int_to_string_loop i n =
     (if i < 63 \<and> n \<noteq> 0 then char_of (48 + c_mod n 10) # int_to_string_loop (i + 1) (c_div n 10)
      else [])"
  by pat_completeness auto
termination
  by (relation "measure (\<lambda>(i, n). 63 - i)") auto

text \<open>\<^verbatim>\<open>int_to_string(n)\<close>; the buffer is written in reverse order and then copied back to
  front.  The negation \<^verbatim>\<open>n = -n\<close> does not overflow for \<open>n\<close> above \<^verbatim>\<open>INTPTR_MIN\<close>.\<close>
definition int_to_string :: "int \<Rightarrow> string" where
  "int_to_string n0 =
     (let neg = (n0 < 0);
          n = (if neg then - n0 else n0);
          buf = (if n = 0 then ''0''
                 else int_to_string_loop 0 n @ (if neg then ''-'' else []))
      in rev buf)"

fun integer_to_string :: "integer_t \<Rightarrow> string option" where
  "integer_to_string (Small i) = Some (int_to_string i)"
| "integer_to_string (Big b) = bigint_to_string b"

subsection \<open>Parse an integer\<close>

text \<open>The argument of \<^verbatim>\<open>integer_parse\<close> is a C string: \<open>char_at s i\<close> is \<^verbatim>\<open>s[i]\<close>, with the
  terminating \<^verbatim>\<open>NUL\<close> after the last character.  The source never reads past the first
  \<^verbatim>\<open>NUL\<close>.\<close>
definition char_at :: "string \<Rightarrow> nat \<Rightarrow> char" where
  "char_at s i = (if i < length s then s ! i else CHR 0x00)"

definition isdigit :: "char \<Rightarrow> bool" where
  "isdigit c = (48 \<le> (of_char c :: nat) \<and> (of_char c :: nat) \<le> 57)"

text \<open>\<^verbatim>\<open>c - '0'\<close>\<close>
definition digit_of :: "char \<Rightarrow> int" where
  "digit_of c = int (of_char c) - 48"

text \<open>The loop over the significant digits.  \<open>Some (i, sig_digits)\<close> when the loop ends or
  breaks, \<open>None\<close> on \<^verbatim>\<open>return box_cptr(NULL)\<close>.\<close>
function parse_significant :: "string \<Rightarrow> nat \<Rightarrow> nat \<Rightarrow> (nat \<times> nat) option" where
  "parse_significant s i sig_digits =
     (if char_at s i = CHR 0x00 then Some (i, sig_digits)
      else if isdigit (char_at s i) then parse_significant s (i + 1) (sig_digits + 1)
      else if char_at s i = CHR ''_'' \<and> isdigit (char_at s (i + 1))
        then parse_significant s (i + 1) sig_digits
      else if (char_at s i = CHR ''.'' \<or> char_at s i = CHR ''e'' \<or> char_at s i = CHR ''E'')
              \<and> isdigit (char_at s (i + 1))
        then Some (i, sig_digits)
      else None)"
  by pat_completeness auto
termination
  by (relation "measure (\<lambda>(s, i, n). length s - i)") (auto simp: char_at_def split: if_splits)

text \<open>The loop over the fraction digits.\<close>
function parse_fraction :: "string \<Rightarrow> nat \<Rightarrow> nat \<Rightarrow> (nat \<times> nat) option" where
  "parse_fraction s i frac_digits =
     (if char_at s i = CHR 0x00 then Some (i, frac_digits)
      else if isdigit (char_at s i) then parse_fraction s (i + 1) (frac_digits + 1)
      else if char_at s i = CHR ''_'' \<and> isdigit (char_at s (i + 1))
        then parse_fraction s (i + 1) frac_digits
      else if (char_at s i = CHR ''e'' \<or> char_at s i = CHR ''E'')
              \<and> isdigit (char_at s (i + 1)) \<and> char_at s (i + 1) \<noteq> CHR ''0''
        then Some (i, frac_digits)
      else None)"
  by pat_completeness auto
termination
  by (relation "measure (\<lambda>(s, i, n). length s - i)") (auto simp: char_at_def split: if_splits)

text \<open>The loop over the exponent digits; \<^verbatim>\<open>if (exp > BASE) return box_cptr(NULL);\<close>.
  \<^verbatim>\<open>exp\<close> is a \<^verbatim>\<open>size_t\<close>, and \<^verbatim>\<open>exp = 10*exp + ((size_t)c - '0')\<close> is computed modulo
  \<open>2 ^ size_bits\<close>, where \<open>size_bits\<close> is the width of \<^verbatim>\<open>size_t\<close>: the source provides for
  32-bit and for 64-bit builds, so the width is an argument.  The test \<^verbatim>\<open>exp > BASE\<close> comes
  after the assignment and sees the wrapped value.\<close>
function parse_exponent :: "nat \<Rightarrow> string \<Rightarrow> nat \<Rightarrow> nat \<Rightarrow> nat option" where
  "parse_exponent size_bits s i exp =
     (if char_at s i = CHR 0x00 then Some exp
      else if isdigit (char_at s i) then
        (let exp' = (10 * exp + nat (digit_of (char_at s i))) mod 2 ^ size_bits
         in if int exp' > BASE then None else parse_exponent size_bits s (i + 1) exp')
      else None)"
  by pat_completeness auto
termination
  by (relation "measure (\<lambda>(w, s, i, n). length s - i)") (auto simp: char_at_def split: if_splits)

text \<open>\<^verbatim>\<open>for (const char* p = s; p < end; p++) { if (isdigit(*p)) d = 10*d + (*p - '0'); }\<close>\<close>
definition parse_small_digits :: "string \<Rightarrow> nat \<Rightarrow> int" where
  "parse_small_digits s e =
     foldl (\<lambda>d c. if isdigit c then 10 * d + digit_of c else d) 0 (take e s)"

text \<open>"read a full digit": the inner loop of the big path.  State: \<open>(p, j, d)\<close>; returns
  \<open>(p, d)\<close>.\<close>
function parse_chunk :: "string \<Rightarrow> nat \<Rightarrow> nat \<Rightarrow> nat \<Rightarrow> nat \<Rightarrow> int \<Rightarrow> nat \<times> int" where
  "parse_chunk s e chunk p j d =
     (if j < chunk then
        (let c = (if p < e then char_at s p else CHR ''0'');
             p' = (if p < e then p + 1 else p)
         in if isdigit c then parse_chunk s e chunk p' (j + 1) (10 * d + digit_of c)
            else parse_chunk s e chunk p' j d)
      else (p, d))"
  by pat_completeness auto
termination
  by (relation "measure (\<lambda>(s, e, chunk, p, j, d). (e - p) + (chunk - j))")
     (auto simp: isdigit_def split: if_splits)

declare parse_chunk.simps [simp del]

lemma parse_chunk_advances:
  "p \<le> fst (parse_chunk s e chunk p j d)
   \<and> (j < chunk \<longrightarrow> p < e \<longrightarrow> p < fst (parse_chunk s e chunk p j d))"
proof (induction s e chunk p j d rule: parse_chunk.induct)
  case (1 s e chunk p j d)
  show ?case
  proof (cases "j < chunk")
    case False
    then show ?thesis by (simp add: parse_chunk.simps)
  next
    case True
    show ?thesis
    proof (cases "p < e")
      case pe: True
      show ?thesis
      proof (cases "isdigit (char_at s p)")
        case dig: True
        have "p + 1 \<le> fst (parse_chunk s e chunk (p + 1) (j + 1) (10 * d + digit_of (char_at s p)))"
          using "1.IH"(1)[OF True refl refl] pe dig by simp
        moreover have "parse_chunk s e chunk p j d
            = parse_chunk s e chunk (p + 1) (j + 1) (10 * d + digit_of (char_at s p))"
          using True pe dig by (subst parse_chunk.simps) simp
        ultimately show ?thesis by simp
      next
        case nodig: False
        have "p + 1 \<le> fst (parse_chunk s e chunk (p + 1) j d)"
          using "1.IH"(2)[OF True refl refl] pe nodig by simp
        moreover have "parse_chunk s e chunk p j d = parse_chunk s e chunk (p + 1) j d"
          using True pe nodig by (subst parse_chunk.simps) simp
        ultimately show ?thesis by simp
      qed
    next
      case npe: False
      have dig: "isdigit (CHR ''0'')" by (simp add: isdigit_def)
      have "p \<le> fst (parse_chunk s e chunk p (j + 1) (10 * d + digit_of (CHR ''0'')))"
        using "1.IH"(1)[OF True refl refl] npe dig by simp
      moreover have "parse_chunk s e chunk p j d
          = parse_chunk s e chunk p (j + 1) (10 * d + digit_of (CHR ''0''))"
        using True npe dig by (subst parse_chunk.simps) simp
      ultimately show ?thesis using npe by simp
    qed
  qed
qed

text \<open>The outer loop of the big path: \<^verbatim>\<open>while (p < end) { ...; if (k > 0) { b->digits[--k] = d; }
  chunk = LOG_BASE; }\<close>.  State: \<open>(p, b, k, chunk)\<close>; returns \<open>(b, k)\<close>.\<close>
function parse_chunks ::
  "string \<Rightarrow> nat \<Rightarrow> nat \<Rightarrow> bigint \<Rightarrow> nat \<Rightarrow> nat \<Rightarrow> (bigint \<times> nat) option" where
  "parse_chunks s e p b k chunk =
     (if p < e then
        (case (if k > 0 then map_option (\<lambda>b'. (b', k - 1)) (wr b (k - 1) (snd (parse_chunk s e chunk p 0 0)))
               else Some (b, k)) of
           None \<Rightarrow> None
         | Some (b', k') \<Rightarrow> parse_chunks s e (fst (parse_chunk s e chunk p 0 0)) b' k' LOG_BASE)
      else Some (b, k))"
  by pat_completeness auto
termination
proof (relation "measure (\<lambda>(s, e, p, b, k, chunk). 2 * (e - p) + (if chunk = 0 then 1 else 0))",
       goal_cases)
  case 1
  show ?case by simp
next
  case (2 s e p b k chunk x2 b' k')
  have le: "p \<le> fst (parse_chunk s e chunk p 0 0)"
    using parse_chunk_advances[of p s e chunk 0 0] by simp
  show ?case
  proof (cases "chunk = 0")
    case True
    then show ?thesis using 2 le by (simp add: LOG_BASE_def)
  next
    case False
    then have "p < fst (parse_chunk s e chunk p 0 0)"
      using parse_chunk_advances[of p s e chunk 0 0] 2 by simp
    then show ?thesis using 2 by (simp add: LOG_BASE_def)
  qed
qed

declare parse_chunks.simps [simp del]

text \<open>\<^verbatim>\<open>for (size_t j = 0; j < k; j++) { b->digits[j] = 0; }\<close>\<close>
function fill_zero :: "bigint \<Rightarrow> nat \<Rightarrow> nat \<Rightarrow> bigint option" where
  "fill_zero b j k =
     (if j < k then
        (case wr b j 0 of None \<Rightarrow> None | Some b' \<Rightarrow> fill_zero b' (j + 1) k)
      else Some b)"
  by pat_completeness auto
termination
  by (relation "measure (\<lambda>(b, j, k). k - j)") auto

declare fill_zero.simps [simp del]

text \<open>
  \<^verbatim>\<open>integer_parse(s)\<close>, first part (the source's comment: "parse"), up to and including
  \<^verbatim>\<open>if (exp < frac_digits) return box_cptr(NULL);\<close>.  The result is \<open>None\<close> on
  \<^verbatim>\<open>return box_cptr(NULL)\<close>, otherwise \<open>(is_neg, end, sig_digits, frac_digits, exp)\<close> with
  \<open>end\<close> as an index into \<open>s\<close>.  The counters \<^verbatim>\<open>i\<close>, \<^verbatim>\<open>sig_digits\<close> and \<^verbatim>\<open>frac_digits\<close> are
  \<^verbatim>\<open>size_t\<close> too; they count characters of the string, which lies in memory, and stay
  below \<open>2 ^ size_bits\<close>.  Only the exponent can wrap around.
\<close>
definition parse_scan :: "nat \<Rightarrow> string \<Rightarrow> (bool \<times> nat \<times> nat \<times> nat \<times> nat) option" where
  "parse_scan size_bits s =
     (let neg = (char_at s 0 \<noteq> CHR ''+'' \<and> char_at s 0 = CHR ''-'');
          i0 = (if char_at s 0 = CHR ''+'' then 1 else if char_at s 0 = CHR ''-'' then 1 else 0)
      in if \<not> isdigit (char_at s i0) then None
         else
           (case parse_significant s i0 0 of None \<Rightarrow> None
            | Some (i1, sig_digits) \<Rightarrow>
               (case (if char_at s i1 = CHR ''.'' then parse_fraction s (i1 + 1) 0
                      else Some (i1, 0)) of None \<Rightarrow> None
                | Some (e, frac_digits) \<Rightarrow>
                   (case (if char_at s e = CHR ''e'' \<or> char_at s e = CHR ''E''
                          then parse_exponent size_bits s (e + 1) 0 else Some 0) of None \<Rightarrow> None
                    | Some exp \<Rightarrow>
                       if exp < frac_digits then None
                       else Some (neg, e, sig_digits, frac_digits, exp)))))"

text \<open>Second part (the source's comment: "parsed correctly, ready to construct the
  number").\<close>
definition parse_construct ::
  "int \<Rightarrow> int \<Rightarrow> string \<Rightarrow> bool \<Rightarrow> nat \<Rightarrow> nat \<Rightarrow> nat \<Rightarrow> nat \<Rightarrow> integer_t option" where
  "parse_construct smin smax s neg e sig_digits frac_digits exp =
     (let zero_digits = exp - frac_digits;
          dec_digits = sig_digits + frac_digits + zero_digits
      in if dec_digits < LOG_BASE then
           (let d = parse_small_digits s e * 10 ^ zero_digits
            in integer_from_int smin smax (if neg then - d else d))
         else
           (let cnt = (dec_digits + (LOG_BASE - 1)) div LOG_BASE;
                b = bigint_alloc cnt neg;
                chunk = (if dec_digits mod LOG_BASE = 0 then LOG_BASE
                         else dec_digits mod LOG_BASE)
            in do {
                 (b1, k) \<leftarrow> parse_chunks s e 0 b cnt chunk;
                 b2 \<leftarrow> fill_zero b1 0 k;
                 integer_bigint smax b2
               }))"

text \<open>\<open>Inl ParseError\<close> is \<^verbatim>\<open>return box_cptr(NULL)\<close>.  The first argument is the width of
  \<^verbatim>\<open>size_t\<close> in bits.\<close>
definition integer_parse :: "nat \<Rightarrow> int \<Rightarrow> int \<Rightarrow> string \<Rightarrow> error + integer_t" where
  "integer_parse size_bits smin smax s =
     (case parse_scan size_bits s of None \<Rightarrow> Inl ParseError
      | Some (neg, e, sig_digits, frac_digits, exp) \<Rightarrow>
          ub (parse_construct smin smax s neg e sig_digits frac_digits exp))"

subsection \<open>Multiplication and division by a power of ten\<close>

text \<open>\<^verbatim>\<open>powers_of_10[i]\<close>, a table of \<open>LOG_BASE + 1\<close> entries.\<close>
definition powers_of_10 :: "int \<Rightarrow> int option" where
  "powers_of_10 i = (if 0 \<le> i \<and> i \<le> int LOG_BASE then Some (10 ^ nat i) else None)"

text \<open>\<^verbatim>\<open>memmove(&c->digits[to], &b->digits[from], n * sizeof(digit_t))\<close>, where \<open>src\<close> is the
  digit array of \<^verbatim>\<open>b\<close> before the call (\<^verbatim>\<open>c\<close> may be \<^verbatim>\<open>b\<close> itself).\<close>
definition move_digits :: "bigint \<Rightarrow> nat \<Rightarrow> int list \<Rightarrow> nat \<Rightarrow> nat \<Rightarrow> bigint option" where
  "move_digits c to src from n =
     (if to + n \<le> length (digits c) \<and> from + n \<le> length src
      then Some (c\<lparr>digits := take to (digits c) @ take n (drop from src)
                               @ drop (to + n) (digits c)\<rparr>)
      else None)"

text \<open>\<^verbatim>\<open>memset(&c->digits[0], 0, n * sizeof(digit_t))\<close>\<close>
definition zero_digits :: "bigint \<Rightarrow> nat \<Rightarrow> bigint option" where
  "zero_digits c n =
     (if n \<le> length (digits c) then Some (c\<lparr>digits := replicate n 0 @ drop n (digits c)\<rparr>)
      else None)"

text \<open>
  \<^verbatim>\<open>integer_mul_pow10\<close> and \<^verbatim>\<open>integer_div_pow10\<close> call each other on a negative exponent.
  \<^verbatim>\<open>integer_mul\<close> and \<^verbatim>\<open>integer_div\<close> are inline functions of the absent
  \<^verbatim>\<open>runtime/integer.h\<close>; they are the arguments \<open>imul\<close> and \<open>idiv\<close>.  For a big exponent both
  functions execute \<^verbatim>\<open>// TODO: raise error\<close> \<^verbatim>\<open>return integer_from_small(0);\<close>.
\<close>
function integer_mul_pow10 ::
    "(integer_t \<Rightarrow> integer_t \<Rightarrow> integer_t option) \<Rightarrow> (integer_t \<Rightarrow> integer_t \<Rightarrow> integer_t option)
      \<Rightarrow> int \<Rightarrow> int \<Rightarrow> bool \<Rightarrow> integer_t \<Rightarrow> integer_t \<Rightarrow> integer_t option"
  and integer_div_pow10 ::
    "(integer_t \<Rightarrow> integer_t \<Rightarrow> integer_t option) \<Rightarrow> (integer_t \<Rightarrow> integer_t \<Rightarrow> integer_t option)
      \<Rightarrow> int \<Rightarrow> int \<Rightarrow> bool \<Rightarrow> integer_t \<Rightarrow> integer_t \<Rightarrow> integer_t option" where
  "integer_mul_pow10 imul idiv smin smax ux x p =
     (if p = Small 0 then Some x
      else if x = Small 0 then Some (Small 0)
      else
        (case p of
           Big bp \<Rightarrow> Some (Small 0)
         | Small i \<Rightarrow>
            if i < 0 then integer_div_pow10 imul idiv smin smax ux x (Small (- i))
            else if is_smallint x \<and> i < int LOG_BASE then
              do {
                pw \<leftarrow> powers_of_10 i;
                y \<leftarrow> integer_from_int smin smax pw;
                imul x y
              }
            else
              do {
                let large = nat (i div int LOG_BASE);
                let small = i mod int LOG_BASE;
                b0 \<leftarrow> integer_to_bigint x;
                (b, bu) \<leftarrow> (if small > 0 then
                              do {
                                pw \<leftarrow> powers_of_10 small;
                                b1 \<leftarrow> bigint_mul_small (unique_of ux x) b0 pw;
                                Some (b1, True)
                              }
                            else Some (b0, unique_of ux x));
                b' \<leftarrow> (if large > 0 then
                          do {
                            let bcount = count b;
                            let ccount = bcount + large;
                            let (c0, same) = bigint_alloc_reuse bu b ccount;
                            c1 \<leftarrow> move_digits c0 large (digits b) 0 bcount;
                            zero_digits c1 large
                          }
                        else Some b);
                integer_bigint smax b'
              }))"
| "integer_div_pow10 imul idiv smin smax ux x p =
     (if p = Small 0 then Some x
      else if x = Small 0 then Some (Small 0)
      else
        (case p of
           Big bp \<Rightarrow> Some (Small 0)
         | Small i \<Rightarrow>
            if i < 0 then integer_mul_pow10 imul idiv smin smax ux x (Small (- i))
            else if is_smallint x \<and> i < int LOG_BASE then
              do {
                pw \<leftarrow> powers_of_10 i;
                y \<leftarrow> integer_from_int smin smax pw;
                idiv x y
              }
            else
              do {
                let large = nat (i div int LOG_BASE);
                let small = i mod int LOG_BASE;
                b0 \<leftarrow> integer_to_bigint x;
                let bcount = count b0;
                if large > 0 \<and> large \<ge> bcount then Some (Small 0)
                else do {
                  (b, bu) \<leftarrow> (if large > 0 then
                                (let ccount = bcount - large
                                 in if unique_of ux x then
                                      do {
                                        b1 \<leftarrow> move_digits b0 0 (digits b0) large ccount;
                                        Some (bigint_trim_to b1 ccount True, True)
                                      }
                                    else
                                      do {
                                        c \<leftarrow> move_digits (bigint_alloc ccount (is_neg b0)) 0
                                               (digits b0) large bcount;
                                        Some (c, True)
                                      })
                              else Some (b0, unique_of ux x));
                  b' \<leftarrow> (if small > 0 then
                            do {
                              pw \<leftarrow> powers_of_10 small;
                              map_option fst (bigint_div_mod_small bu b pw)
                            }
                          else Some b);
                  integer_bigint smax b'
                }
              }))"
  by pat_completeness auto
termination
  by (relation "measure (\<lambda>v. case v of
          Inl (imul, idiv, smin, smax, ux, x, p) \<Rightarrow> (case p of Small i \<Rightarrow> if i < 0 then 1 else 0 | Big b \<Rightarrow> 0)
        | Inr (imul, idiv, smin, smax, ux, x, p) \<Rightarrow> (case p of Small i \<Rightarrow> if i < 0 then 1 else 0 | Big b \<Rightarrow> 0))")
     auto

subsection \<open>The number a buffer stands for\<close>

text \<open>The source's header comment:
  \<^verbatim>\<open>n = (is_neg ? -1 : 1) * (digits[0]*(BASE^0) + ... + digits[count-1]*(BASE^(count-1)))\<close>.\<close>
fun digits_val :: "int list \<Rightarrow> int" where
  "digits_val [] = 0"
| "digits_val (d # ds) = d + BASE * digits_val ds"

definition live :: "bigint \<Rightarrow> int list" where
  "live b = take (count b) (digits b)"

definition bigint_val :: "bigint \<Rightarrow> int" where
  "bigint_val b = (if is_neg b then - 1 else 1) * digits_val (live b)"

fun integer_val :: "integer_t \<Rightarrow> int" where
  "integer_val (Small i) = i"
| "integer_val (Big b) = bigint_val b"

subsection \<open>The grammar of decimal literals\<close>

text \<open>
  The spec's words for what \<^verbatim>\<open>parse\<close> accepts: an optional leading \<open>+\<close> or \<open>-\<close>; then one or
  more decimal digits with optional internal \<open>_\<close> separators, each flanked by digits; an
  optional fractional part \<open>.ddd\<close> under the same underscore rule; an optional exponent \<open>e\<close> or
  \<open>E\<close> followed by unsigned decimal digits bounded by \<open>B\<close>; and \<open>exp \<ge> frac_digits\<close>.

  \<open>digit_run\<close> is the production \<open>D ::= d | d D | d _ D\<close>.
\<close>
fun digit_run :: "string \<Rightarrow> bool" where
  "digit_run [] = False"
| "digit_run [c] = isdigit c"
| "digit_run (c # d # cs) =
     (isdigit c \<and> (if d = CHR ''_'' then digit_run cs else digit_run (d # cs)))"


text \<open>The parts of a literal: the integer part runs up to the first \<open>.\<close>, \<open>e\<close> or \<open>E\<close>; after
  a \<open>.\<close> the fractional part runs up to the first \<open>e\<close> or \<open>E\<close>; the exponent is what follows
  that letter.\<close>
definition is_mark :: "char \<Rightarrow> bool" where
  "is_mark c = (c = CHR ''.'' \<or> c = CHR ''e'' \<or> c = CHR ''E'')"

definition is_exp_mark :: "char \<Rightarrow> bool" where
  "is_exp_mark c = (c = CHR ''e'' \<or> c = CHR ''E'')"

definition dec_val :: "string \<Rightarrow> nat" where
  "dec_val cs = foldl (\<lambda>v c. 10 * v + nat (digit_of c)) 0 cs"

definition body_of :: "string \<Rightarrow> string" where
  "body_of s = (case s of [] \<Rightarrow> [] | c # cs \<Rightarrow> if c = CHR ''+'' \<or> c = CHR ''-'' then cs else s)"

definition literal_parts :: "string \<Rightarrow> string \<times> string option \<times> string option" where
  "literal_parts s =
     (let body = body_of s;
          ip = takeWhile (\<lambda>c. \<not> is_mark c) body;
          r1 = dropWhile (\<lambda>c. \<not> is_mark c) body;
          has_frac = (take 1 r1 = ''.'');
          fp = takeWhile (\<lambda>c. \<not> is_exp_mark c) (tl r1);
          r2 = (if has_frac then dropWhile (\<lambda>c. \<not> is_exp_mark c) (tl r1) else r1)
      in (ip, if has_frac then Some fp else None, if r2 = [] then None else Some (tl r2)))"

text \<open>The grammar as the spec words it.\<close>
definition spec_grammar :: "string \<Rightarrow> bool" where
  "spec_grammar s =
     (case literal_parts s of (ip, fp, ex) \<Rightarrow>
        digit_run ip
        \<and> (case fp of None \<Rightarrow> True | Some f \<Rightarrow> digit_run f)
        \<and> (case ex of None \<Rightarrow> True
            | Some x \<Rightarrow> x \<noteq> [] \<and> list_all isdigit x \<and> int (dec_val x) \<le> BASE)
        \<and> (case fp of None \<Rightarrow> 0 | Some f \<Rightarrow> length (filter isdigit f))
            \<le> (case ex of None \<Rightarrow> 0 | Some x \<Rightarrow> dec_val x))"

text \<open>The grammar with the one restriction the source adds: after a fractional part the
  exponent does not start with the digit \<open>0\<close>.\<close>
definition code_grammar :: "string \<Rightarrow> bool" where
  "code_grammar s =
     (spec_grammar s
      \<and> (case literal_parts s of (ip, fp, ex) \<Rightarrow>
            (case fp of None \<Rightarrow> True
             | Some f \<Rightarrow> (case ex of None \<Rightarrow> True | Some x \<Rightarrow> take 1 x \<noteq> ''0''))))"



subsection \<open>Well-formed buffers\<close>

text \<open>The live digits and the extra slots lie inside the allocation, and \<open>extra\<close> fits its
  15-bit field.\<close>
definition wf_buf :: "bigint \<Rightarrow> bool" where
  "wf_buf b = (count b + extra b \<le> length (digits b) \<and> extra b < 32768)"


text \<open>Digits in \<open>[0, BASE)\<close>.\<close>
definition in_range :: "int list \<Rightarrow> bool" where
  "in_range ds = list_all (\<lambda>d. 0 \<le> d \<and> d < BASE) ds"


text \<open>The canonical form of the source's header comment and of the spec: at least one live
  digit, every live digit in \<open>[0, BASE)\<close>, and the top digit not zero
  (\<^verbatim>\<open>For any count>0, we have digits[count-1] != 0\<close>).\<close>
definition canonical :: "bigint \<Rightarrow> bool" where
  "canonical b =
     (0 < count b \<and> count b \<le> length (digits b)
      \<and> in_range (live b) \<and> last (live b) \<noteq> 0)"


text \<open>A well-formed integer: a small integer that fits \<^verbatim>\<open>intptr_t\<close> with its negation, or a
  canonical big integer.\<close>
definition wf_integer :: "integer_t \<Rightarrow> bool" where
  "wf_integer x = (case x of Small i \<Rightarrow> \<bar>i\<bar> < 2 ^ 63 | Big b \<Rightarrow> canonical b)"




declare div_mod_fixup.simps [code]
declare from_int_loop.simps [simp del]
declare int_to_string_loop.simps [simp del]
declare parse_significant.simps [simp del]
declare parse_fraction.simps [simp del]
declare parse_exponent.simps [simp del]
declare integer_mul_pow10.simps [simp del]
declare integer_div_pow10.simps [simp del]
declare mul_inner.simps [simp del]
declare mul_outer.simps [simp del]
declare mul_small_digits.simps [simp del]
declare mul_small_carry.simps [simp del]
declare div_mod_mulsub.simps [simp del]
declare div_mod_addback.simps [simp del]
declare add_abs_digits.simps [simp del]
declare add_abs_carry.simps [simp del]
declare copy_digits_upto.simps [simp del]
declare sub_abs_digits.simps [simp del]
declare sub_abs_borrow.simps [simp del]
declare bigint_add.simps [simp del]
declare bigint_sub.simps [simp del]

section \<open>Properties\<close>

lemmas storage_defs =
  bigint_is_neg_def bigint_count_def bigint_available_def rd_def wr_def rdx_def
  bigint_last_digit_def bigint_roundup_count_def bigint_alloc_def bigint_alloc_zero_def
  realloc_digits_def bigint_trim_realloc_def bigint_trim_to_def bigint_trim_def
  bigint_alloc_reuse_def memcpy_digits_def bigint_copy_def bigint_ensure_unique_def
  bigint_push_def MAX_EXTRA_def BASE_def


subsection \<open>Evaluating the scanning loops on numerals\<close>

lemma trim_scan_numeral [simp]:
  "trim_scan x (numeral k) =
     (case rd x (pred_numeral k) of None \<Rightarrow> None
      | Some d \<Rightarrow> if d = 0 then trim_scan x (pred_numeral k) else Some (numeral k))"
  by (simp add: numeral_eq_Suc split: option.split)

lemma trim_scan_1 [simp]:
  "trim_scan x 1 =
     (case rd x 0 of None \<Rightarrow> None
      | Some d \<Rightarrow> if d = 0 then Some 0 else Some 1)"
  by (simp split: option.split)

lemma compare_abs_scan_numeral [simp]:
  "compare_abs_scan x y (numeral k) =
     (case rd x (pred_numeral k) of None \<Rightarrow> None
      | Some xi \<Rightarrow>
         (case rd y (pred_numeral k) of None \<Rightarrow> None
          | Some yi \<Rightarrow>
             if xi \<noteq> yi then Some (if xi > yi then 1 else - 1)
             else compare_abs_scan x y (pred_numeral k)))"
  by (simp add: numeral_eq_Suc split: option.split)

lemma compare_abs_scan_1 [simp]:
  "compare_abs_scan x y 1 =
     (case rd x 0 of None \<Rightarrow> None
      | Some xi \<Rightarrow>
         (case rd y 0 of None \<Rightarrow> None
          | Some yi \<Rightarrow>
             if xi \<noteq> yi then Some (if xi > yi then 1 else - 1)
             else Some 0))"
  by (simp split: option.split)

subsection \<open>Memory safety of \<^verbatim>\<open>bigint_sub_abs\<close>\<close>

text \<open>
  Claim C10 says that \<^verbatim>\<open>bigint_sub_abs\<close> touches only digit indices below \<open>count + extra\<close>,
  also in the tail copy into a fresh buffer.  The tail copy runs \<^verbatim>\<open>for (; i <= cx; i++)\<close>
  and so touches index \<open>cx\<close> of both \<^verbatim>\<open>x\<close> and \<^verbatim>\<open>z\<close>.  For a shared \<open>x = 10^27 + 5\<close> with four
  digits and no extra slot (what \<^verbatim>\<open>bigint_alloc(4, _)\<close> gives) and \<open>y = 1\<close>, the two
  subtraction loops stay in bounds and end at \<open>i = 1\<close>; copying up to \<open>cx\<close> exclusive (as the
  commented-out \<^verbatim>\<open>memcpy\<close> and the sibling \<^verbatim>\<open>bigint_add_abs\<close> do) stays in bounds; the loop
  as written accesses index \<open>4 = count + extra\<close>, outside both four-slot buffers.
\<close>

theorem bigint_sub_abs_tail_out_of_bounds:
  "(let x = \<lparr>is_neg = False, extra = 0, count = 4, digits = [5, 0, 0, 1]\<rparr>;
        y = \<lparr>is_neg = False, extra = 3, count = 1, digits = [1, 0, 0, 0]\<rparr>;
        (z0, same) = bigint_alloc_reuse False x 4
    in \<not> same \<and> bigint_available x = 4 \<and> bigint_available z0 = 4
       \<and> length (digits x) = 4 \<and> length (digits z0) = 4
       \<and> (\<exists>z2. Option.bind (sub_abs_digits same x y 1 z0 0 0)
                  (\<lambda>(z1, i1, borrow1). sub_abs_borrow same x 4 z1 i1 borrow1) = Some (z2, 1, 0)
              \<and> copy_digits_upto x z2 4 1 \<noteq> None
              \<and> copy_digits_upto x z2 (4 + 1) 1 = None)
       \<and> bigint_sub_abs False x y = None)"
  by (simp add: storage_defs bigint_sub_abs_def sub_abs_digits.simps sub_abs_borrow.simps
      copy_digits_upto.simps)

subsection \<open>Normalisation of results\<close>

text \<open>
  Claim C2 says that every operation downcasts a big result that fits a small integer.
  \<^verbatim>\<open>bigint_trim\<close> gives a zero result \<open>count = 0\<close>, and \<^verbatim>\<open>integer_bigint\<close> downcasts only
  when \<open>count = 1\<close>: subtracting \<open>10^27\<close> from \<open>10^27\<close> (two uniquely referenced buffers)
  returns a big integer with no digits instead of the small integer \<open>0\<close>, whatever
  \<^verbatim>\<open>SMALLINT_MAX\<close> is.
\<close>

theorem integer_sub_generic_zero_stays_big:
  "integer_sub_generic smax True True
      (Big \<lparr>is_neg = False, extra = 0, count = 4, digits = [0, 0, 0, 1]\<rparr>)
      (Big \<lparr>is_neg = False, extra = 0, count = 4, digits = [0, 0, 0, 1]\<rparr>)
    = Some (Big \<lparr>is_neg = False, extra = 4, count = 0, digits = [0, 0, 0, 0]\<rparr>)"
  by (simp add: storage_defs integer_sub_generic_def integer_bigint_def bigint_sub.simps
      bigint_compare_abs_def bigint_sub_abs_def sub_abs_digits.simps sub_abs_borrow.simps)

text \<open>The boundary case of the same claim does hold: \<open>(SMALLINT_MAX + 1) - 1\<close> comes back
  small, for a positive \<^verbatim>\<open>SMALLINT_MAX\<close> below \<open>BASE - 1\<close> and either answer of the uniqueness test.\<close>

lemma integer_sub_generic_demotes:
  assumes "0 < smax" "smax + 1 < BASE"
  shows "integer_sub_generic smax u True
           (Big \<lparr>is_neg = False, extra = 3, count = 1, digits = [smax + 1, d1, d2, d3]\<rparr>)
           (Small 1) = Some (Small smax)"
  using assms
  by (cases u)
     (simp_all add: storage_defs integer_sub_generic_def integer_bigint_def bigint_sub.simps
      bigint_compare_abs_def bigint_sub_abs_def sub_abs_digits.simps sub_abs_borrow.simps
      copy_digits_upto.simps bigint_from_int_def from_int_loop.simps)

subsection \<open>Signum\<close>

text \<open>
  Claim C9 says that \<^verbatim>\<open>integer_signum_generic\<close> returns \<open>0\<close> for zero.  Its zero check is
  \<^verbatim>\<open>bx->count==0 && bx->digits[0]==0\<close>, but \<^verbatim>\<open>bigint_from_int(0)\<close> pushes one zero digit, so
  the small integer \<open>0\<close> arrives with \<open>count = 1\<close> and the function answers \<open>1\<close>.
\<close>

theorem integer_signum_generic_zero:
  "integer_signum_generic (Small 0) = Some 1"
  by (simp add: storage_defs integer_signum_generic_def bigint_from_int_def from_int_loop.simps)


subsection \<open>Parsing: the concrete scenarios\<close>

lemma replicate_numeral_unfold:
  "replicate (numeral k) x = x # replicate (pred_numeral k) x"
  by (simp add: numeral_eq_Suc)

lemmas parse_defs =
  integer_parse_def parse_scan_def parse_construct_def char_at_def isdigit_def digit_of_def parse_significant.simps
  parse_fraction.simps parse_exponent.simps parse_small_digits_def LOG_BASE_def
  integer_from_int_def integer_from_big_def bigint_from_int_def from_int_loop.simps

text \<open>A \<^verbatim>\<open>size_t\<close> of at least four bits holds a one-digit exponent.\<close>
lemma size_wrap_small: "k < 16 \<Longrightarrow> k mod 2 ^ (4 + n) = (k::nat)"
proof -
  assume k: "k < 16"
  have "(16::nat) * 1 \<le> 16 * 2 ^ n" by (intro mult_le_mono2) simp
  then have "(16::nat) \<le> 2 ^ (4 + n)" by (simp add: power_add)
  then show ?thesis using k by simp
qed

text \<open>
  Claim C5 says that \<^verbatim>\<open>parse("1.5e1")\<close> is a parse error.  The source rejects a fraction only
  when \<^verbatim>\<open>exp < frac_digits\<close>; here both are \<open>1\<close> and the result is the integer \<open>15\<close>
  (shown for a 32-bit \<^verbatim>\<open>size_t\<close> and a 30-bit small range).
\<close>

theorem integer_parse_1_5e1_counterexample:
  "integer_parse 32 (- 536870912) 536870911 ''1.5e1'' \<noteq> Inl ParseError"
  by (simp add: parse_defs BASE_def)

text \<open>
  Claim C5 as amended: \<^verbatim>\<open>parse("1.5e3")\<close> is the integer \<open>1500\<close>, \<^verbatim>\<open>parse("1.5e2")\<close> is \<open>150\<close> and
  \<^verbatim>\<open>parse("1.5e1")\<close> is \<open>15\<close>, whatever the range of small integers is and whatever the width
  of \<^verbatim>\<open>size_t\<close> is, from four bits on (the width is written \<open>4 + n\<close>).
\<close>

theorem integer_parse_scenarios:
  "map_sum id integer_val (integer_parse (4 + n) smin smax ''1.5e3'') = Inr 1500
   \<and> map_sum id integer_val (integer_parse (4 + n) smin smax ''1.5e2'') = Inr 150
   \<and> map_sum id integer_val (integer_parse (4 + n) smin smax ''1.5e1'') = Inr 15"
  by (simp add: parse_defs storage_defs bigint_val_def live_def replicate_numeral_unfold
        size_wrap_small)

subsection \<open>Scaling by a power of ten with a big exponent\<close>

text \<open>
  Claim C7 says that \<^verbatim>\<open>integer_mul_pow10\<close> and \<^verbatim>\<open>integer_div_pow10\<close> fail on a big exponent.
  The source has the comment \<^verbatim>\<open>// TODO: raise error\<close> there and returns the small integer
  \<open>0\<close>: for every \<open>x\<close> and every big \<open>p\<close> the result is the integer \<open>0\<close>, not a failure.
\<close>

theorem integer_pow10_big_exponent_returns_zero:
  "integer_mul_pow10 imul idiv smin smax ux x (Big p) = Some (Small 0)
   \<and> integer_div_pow10 imul idiv smin smax ux x (Big p) = Some (Small 0)"
  by (simp add: integer_mul_pow10.simps integer_div_pow10.simps)

subsection \<open>Division by zero\<close>

text \<open>
  Claim C8: for every \<open>x\<close>, \<^verbatim>\<open>integer_div_mod_generic\<close>, \<^verbatim>\<open>integer_div_generic\<close> and
  \<^verbatim>\<open>integer_mod_generic\<close> with the divisor \<open>0\<close> report the division by zero and produce no
  integer (nothing is stored through \<^verbatim>\<open>mod\<close> either).
\<close>

theorem integer_div_mod_by_zero:
  "integer_div_mod_generic smin smax ux uy x (Small 0) want_mod = Inl DivisionByZero
   \<and> integer_div_generic smin smax ux uy x (Small 0) = Inl DivisionByZero
   \<and> integer_mod_generic smin smax ux uy x (Small 0) = Inl DivisionByZero"
  by (simp add: integer_div_mod_generic_def integer_div_generic_def integer_mod_generic_def)


subsection \<open>Buffers stay well formed\<close>
lemma roundup_ge: "n \<le> bigint_roundup_count n"
  by (simp add: bigint_roundup_count_def)

lemma roundup_le: "bigint_roundup_count n \<le> n + 4"
  by (simp add: bigint_roundup_count_def)

lemma bigint_alloc_simps [simp]:
  "count (bigint_alloc n neg) = n"
  "is_neg (bigint_alloc n neg) = neg"
  "length (digits (bigint_alloc n neg)) = bigint_roundup_count n"
  "extra (bigint_alloc n neg) = bigint_roundup_count n - n"
  by (simp_all add: bigint_alloc_def Let_def)

lemma bigint_alloc_wf [simp]: "wf_buf (bigint_alloc n neg)"
  using roundup_ge[of n] roundup_le[of n] by (simp add: wf_buf_def)

lemma bigint_copy_Some:
  assumes "wf_buf x"
  shows "\<exists>z. bigint_copy x e = Some z \<and> wf_buf z \<and> count z = count x \<and> is_neg z = is_neg x
             \<and> live z = live x \<and> min e MAX_EXTRA \<le> extra z"
proof -
  let ?e = "if e > MAX_EXTRA then MAX_EXTRA else e"
  let ?n = "count x + ?e"
  let ?z0 = "(bigint_alloc ?n (bigint_is_neg x))\<lparr>is_neg := is_neg x\<rparr>"
  let ?z1 = "bigint_trim_to ?z0 (count x) False"
  have avail: "bigint_available ?z0 = bigint_roundup_count ?n"
    using roundup_ge[of ?n] by (simp add: bigint_available_def)
  have ge: "?n \<le> bigint_roundup_count ?n" by (rule roundup_ge)
  have z1: "count ?z1 = count x \<and> is_neg ?z1 = is_neg x
            \<and> length (digits ?z1) = bigint_roundup_count ?n
            \<and> extra ?z1 = min (bigint_roundup_count ?n - count x) MAX_EXTRA"
    using ge avail by (auto simp: bigint_trim_to_def Let_def MAX_EXTRA_def)
  have cx: "count x \<le> length (digits x)" using assms by (simp add: wf_buf_def)
  have cz: "count x \<le> length (digits ?z1)" using z1 ge by simp
  have "bigint_copy x e = memcpy_digits ?z1 x (count x)"
    by (simp add: bigint_copy_def Let_def)
  also have "\<dots> = Some (?z1\<lparr>digits := take (count x) (digits x) @ drop (count x) (digits ?z1)\<rparr>)"
    using cx cz by (simp add: memcpy_digits_def)
  finally have eq: "bigint_copy x e
      = Some (?z1\<lparr>digits := take (count x) (digits x) @ drop (count x) (digits ?z1)\<rparr>)" .
  show ?thesis
    unfolding eq using z1 cx cz ge
    by (auto simp: wf_buf_def live_def MAX_EXTRA_def min_def)
qed

lemma bigint_push_Some:
  assumes "wf_buf x"
  shows "\<exists>z. bigint_push x d = Some z \<and> wf_buf z \<and> count z = Suc (count x) \<and> is_neg z = is_neg x
             \<and> live z = live x @ [d]"
proof -
  obtain y where y: "(if extra x = 0 then bigint_copy x MAX_EXTRA else Some x) = Some y"
    and wfy: "wf_buf y" and cy: "count y = count x" and ny: "is_neg y = is_neg x"
    and ly: "live y = live x" and ey: "0 < extra y"
  proof (cases "extra x = 0")
    case True
    from bigint_copy_Some[OF assms, of MAX_EXTRA] obtain z where
      "bigint_copy x MAX_EXTRA = Some z" "wf_buf z" "count z = count x" "is_neg z = is_neg x"
      "live z = live x" "min MAX_EXTRA MAX_EXTRA \<le> extra z" by blast
    then show ?thesis using True that[of z] by (simp add: MAX_EXTRA_def)
  next
    case False
    then show ?thesis using assms that[of x] by simp
  qed
  have lt: "count y < length (digits y)" using wfy ey by (simp add: wf_buf_def)
  have "extra y + 32767 = (extra y - 1) + 32768" using ey by simp
  then have "(extra y + 32767) mod 32768 = (extra y - 1) mod 32768"
    by (metis mod_add_self2)
  moreover have "extra y - 1 < 32768" using wfy unfolding wf_buf_def by linarith
  ultimately have ex: "(extra y + 32767) mod 32768 = extra y - 1"
    by (simp only: mod_less)
  have "bigint_push x d
        = Some (y\<lparr>digits := (digits y)[count y := d], count := count y + 1,
                  extra := (extra y + 32767) mod 32768\<rparr>)"
    using y lt by (simp add: bigint_push_def wr_def)
  then show ?thesis
    using wfy ey lt cy ny ly ex
    by (auto simp: wf_buf_def live_def take_Suc_conv_app_nth)
qed

lemma from_int_loop_Some:
  "wf_buf b \<Longrightarrow> \<exists>z. from_int_loop b i = Some z \<and> wf_buf z \<and> is_neg z = is_neg b"
proof (induction b i rule: from_int_loop.induct)
  case (1 b i)
  from bigint_push_Some[OF 1(2), of "i mod BASE"] obtain b' where
    p: "bigint_push b (i mod BASE) = Some b'" and wf: "wf_buf b'" and n: "is_neg b' = is_neg b"
    by blast
  show ?case
  proof (cases "i div BASE > 0")
    case True
    from 1(1)[OF p True wf] show ?thesis using p True n
      by (subst from_int_loop.simps) auto
  next
    case False
    then show ?thesis using p wf n by (subst from_int_loop.simps) auto
  qed
qed

lemma bigint_from_int_Some: "\<exists>z. bigint_from_int i = Some z \<and> wf_buf z"
  using from_int_loop_Some[of "bigint_alloc 0 (i < 0)" "if i < 0 then - i else i"]
  by (auto simp: bigint_from_int_def Let_def)

lemma integer_from_int_Some: "\<exists>v. integer_from_int smin smax i = Some v"
  using bigint_from_int_Some[of i] by (auto simp: integer_from_int_def integer_from_big_def)

lemma wr_Some:
  "i < length (digits b) \<Longrightarrow> wr b i d = Some (b\<lparr>digits := (digits b)[i := d]\<rparr>)"
  by (simp add: wr_def)

lemma parse_chunks_Some:
  "k \<le> length (digits b) \<Longrightarrow>
   \<exists>b' k'. parse_chunks s e p b k chunk = Some (b', k') \<and> k' \<le> k
      \<and> length (digits b') = length (digits b) \<and> count b' = count b \<and> is_neg b' = is_neg b"
proof (induction s e p b k chunk rule: parse_chunks.induct)
  case (1 s e p b k chunk)
  show ?case
  proof (cases "p < e")
    case False
    then show ?thesis by (subst parse_chunks.simps) simp
  next
    case True
    let ?d = "snd (parse_chunk s e chunk p 0 0)"
    let ?p = "fst (parse_chunk s e chunk p 0 0)"
    show ?thesis
    proof (cases "k > 0")
      case False
      have st: "(if k > 0 then map_option (\<lambda>b'. (b', k - 1)) (wr b (k - 1) ?d) else Some (b, k))
                = Some (b, k)" using False by simp
      from "1.IH"[OF True st refl] "1.prems"
      obtain b' k' where "parse_chunks s e ?p b k LOG_BASE = Some (b', k')" "k' \<le> k"
        "length (digits b') = length (digits b)" "count b' = count b" "is_neg b' = is_neg b"
        by auto
      then show ?thesis using True False by (subst parse_chunks.simps) simp
    next
      case kpos: True
      let ?b = "b\<lparr>digits := (digits b)[k - 1 := ?d]\<rparr>"
      have w: "wr b (k - 1) ?d = Some ?b" using kpos "1.prems" by (simp add: wr_Some)
      have st: "(if k > 0 then map_option (\<lambda>b'. (b', k - 1)) (wr b (k - 1) ?d) else Some (b, k))
                = Some (?b, k - 1)" using kpos w by simp
      have "k - 1 \<le> length (digits ?b)" using "1.prems" by simp
      from "1.IH"[OF True st refl this]
      obtain b' k' where "parse_chunks s e ?p ?b (k - 1) LOG_BASE = Some (b', k')" "k' \<le> k - 1"
        "length (digits b') = length (digits b)" "count b' = count b" "is_neg b' = is_neg b"
        by auto
      then show ?thesis using True kpos w by (subst parse_chunks.simps) auto
    qed
  qed
qed

lemma fill_zero_Some:
  "k \<le> length (digits b) \<Longrightarrow>
   \<exists>b'. fill_zero b j k = Some b' \<and> length (digits b') = length (digits b)
        \<and> count b' = count b \<and> is_neg b' = is_neg b"
proof (induction b j k rule: fill_zero.induct)
  case (1 b j k)
  show ?case
  proof (cases "j < k")
    case False
    then show ?thesis by (subst fill_zero.simps) simp
  next
    case True
    let ?b = "b\<lparr>digits := (digits b)[j := 0]\<rparr>"
    have w: "wr b j 0 = Some ?b" using True "1.prems" by (simp add: wr_Some)
    have "k \<le> length (digits ?b)" using "1.prems" by simp
    from "1.IH"[OF True w this] show ?thesis using True w
      by (subst fill_zero.simps) auto
  qed
qed

lemma integer_bigint_Some:
  "0 < length (digits b) \<Longrightarrow> \<exists>v. integer_bigint smax b = Some v"
  by (simp add: integer_bigint_def rd_def)

subsection \<open>What \<^verbatim>\<open>integer_parse\<close> accepts\<close>

text \<open>The three scanning loops, as functions of the rest of the string: the number of
  characters consumed and the number of digits seen (or the exponent).\<close>


definition next_is_digit :: "string \<Rightarrow> bool" where
  "next_is_digit cs = (case cs of [] \<Rightarrow> False | d # _ \<Rightarrow> isdigit d)"

fun sig_scan :: "string \<Rightarrow> (nat \<times> nat) option" where
  "sig_scan [] = Some (0, 0)"
| "sig_scan (c # cs) =
     (if isdigit c then map_option (\<lambda>(k, n). (Suc k, Suc n)) (sig_scan cs)
      else if c = CHR ''_'' \<and> next_is_digit cs then map_option (\<lambda>(k, n). (Suc k, n)) (sig_scan cs)
      else if (c = CHR ''.'' \<or> c = CHR ''e'' \<or> c = CHR ''E'') \<and> next_is_digit cs then Some (0, 0)
      else None)"

lemma char_at_drop:
  "char_at s i = (case drop i s of [] \<Rightarrow> CHR 0x00 | c # _ \<Rightarrow> c)"
proof (cases "i < length s")
  case True
  then have "drop i s = s ! i # drop (Suc i) s" by (simp add: Cons_nth_drop_Suc)
  then show ?thesis using True by (simp add: char_at_def)
next
  case False
  then show ?thesis by (simp add: char_at_def)
qed

lemma char_at_nul_iff: "CHR 0x00 \<notin> set s \<Longrightarrow> char_at s i = CHR 0x00 \<longleftrightarrow> length s \<le> i"
  by (auto simp: char_at_def) (metis nth_mem)

lemma isdigit_simps [simp]:
  "\<not> isdigit (CHR 0x00)" "\<not> isdigit (CHR ''_'')" "\<not> isdigit (CHR ''.'')"
  "\<not> isdigit (CHR ''e'')" "\<not> isdigit (CHR ''E'')" "\<not> isdigit (CHR ''+'')" "\<not> isdigit (CHR ''-'')"
  "isdigit (CHR ''0'')"
  by (simp_all add: isdigit_def)

lemma isdigit_char_at_Suc:
  "CHR 0x00 \<notin> set s \<Longrightarrow> i < length s \<Longrightarrow> isdigit (char_at s (Suc i)) = next_is_digit (drop (Suc i) s)"
  using char_at_drop[of s "Suc i"] by (auto simp: next_is_digit_def split: list.splits)

lemma parse_significant_scan:
  "CHR 0x00 \<notin> set s \<Longrightarrow> i \<le> length s \<Longrightarrow>
   parse_significant s i n = map_option (\<lambda>(k, m). (i + k, n + m)) (sig_scan (drop i s))"
proof (induction s i n rule: parse_significant.induct)
  case (1 s i n)
  show ?case
  proof (cases "i < length s")
    case False
    then show ?thesis using 1(3,4)
      by (subst parse_significant.simps) (simp add: char_at_def)
  next
    case True
    then have d: "drop i s = s ! i # drop (Suc i) s" by (simp add: Cons_nth_drop_Suc)
    have c: "char_at s i = s ! i" using True by (simp add: char_at_def)
    have nn: "s ! i \<noteq> CHR 0x00" using True 1(3) by (metis nth_mem)
    have nd: "isdigit (char_at s (i + 1)) = next_is_digit (drop (Suc i) s)"
      using isdigit_char_at_Suc[OF 1(3) True] by simp
    show ?thesis
    proof (cases "isdigit (s ! i)")
      case dig: True
      have "parse_significant s (i + 1) (n + 1)
            = map_option (\<lambda>(k, m). (i + 1 + k, n + 1 + m)) (sig_scan (drop (i + 1) s))"
        using 1(1) c nn dig 1(3) True by simp
      then show ?thesis using c nn dig d
        by (subst parse_significant.simps) (cases "sig_scan (drop (Suc i) s)"; auto)
    next
      case nodig: False
      show ?thesis
      proof (cases "s ! i = CHR ''_'' \<and> next_is_digit (drop (Suc i) s)")
        case us: True
        have "parse_significant s (i + 1) n
              = map_option (\<lambda>(k, m). (i + 1 + k, n + m)) (sig_scan (drop (i + 1) s))"
          using 1(2) c nn nodig us nd 1(3) True by simp
        then show ?thesis using c nn nodig us nd d
          by (subst parse_significant.simps) (cases "sig_scan (drop (Suc i) s)"; auto)
      next
        case nus: False
        then show ?thesis using c nn nodig nd d
          by (subst parse_significant.simps) auto
      qed
    qed
  qed
qed


definition next_is_nonzero_digit :: "string \<Rightarrow> bool" where
  "next_is_nonzero_digit cs = (case cs of [] \<Rightarrow> False | d # _ \<Rightarrow> isdigit d \<and> d \<noteq> CHR ''0'')"

fun frac_scan :: "string \<Rightarrow> (nat \<times> nat) option" where
  "frac_scan [] = Some (0, 0)"
| "frac_scan (c # cs) =
     (if isdigit c then map_option (\<lambda>(k, n). (Suc k, Suc n)) (frac_scan cs)
      else if c = CHR ''_'' \<and> next_is_digit cs then map_option (\<lambda>(k, n). (Suc k, n)) (frac_scan cs)
      else if (c = CHR ''e'' \<or> c = CHR ''E'') \<and> next_is_nonzero_digit cs then Some (0, 0)
      else None)"

fun exp_scan :: "string \<Rightarrow> nat \<Rightarrow> nat option" where
  "exp_scan [] v = Some v"
| "exp_scan (c # cs) v =
     (if isdigit c then
        (let v' = 10 * v + nat (digit_of c) in if int v' > BASE then None else exp_scan cs v')
      else None)"

lemma nonzero_char_at_Suc:
  "CHR 0x00 \<notin> set s \<Longrightarrow> i < length s \<Longrightarrow>
   (isdigit (char_at s (Suc i)) \<and> char_at s (Suc i) \<noteq> CHR ''0'') = next_is_nonzero_digit (drop (Suc i) s)"
  using char_at_drop[of s "Suc i"] by (auto simp: next_is_nonzero_digit_def split: list.splits)

lemma parse_fraction_scan:
  "CHR 0x00 \<notin> set s \<Longrightarrow> i \<le> length s \<Longrightarrow>
   parse_fraction s i n = map_option (\<lambda>(k, m). (i + k, n + m)) (frac_scan (drop i s))"
proof (induction s i n rule: parse_fraction.induct)
  case (1 s i n)
  show ?case
  proof (cases "i < length s")
    case False
    then show ?thesis using 1(3,4)
      by (subst parse_fraction.simps) (simp add: char_at_def)
  next
    case True
    then have d: "drop i s = s ! i # drop (Suc i) s" by (simp add: Cons_nth_drop_Suc)
    have c: "char_at s i = s ! i" using True by (simp add: char_at_def)
    have nn: "s ! i \<noteq> CHR 0x00" using True 1(3) by (metis nth_mem)
    have nd: "isdigit (char_at s (i + 1)) = next_is_digit (drop (Suc i) s)"
      using isdigit_char_at_Suc[OF 1(3) True] by simp
    have nz: "(isdigit (char_at s (i + 1)) \<and> char_at s (i + 1) \<noteq> CHR ''0'')
               = next_is_nonzero_digit (drop (Suc i) s)"
      using nonzero_char_at_Suc[OF 1(3) True] by simp
    show ?thesis
    proof (cases "isdigit (s ! i)")
      case dig: True
      have "parse_fraction s (i + 1) (n + 1)
            = map_option (\<lambda>(k, m). (i + 1 + k, n + 1 + m)) (frac_scan (drop (i + 1) s))"
        using 1(1) c nn dig 1(3) True by simp
      then show ?thesis using c nn dig d
        by (subst parse_fraction.simps) (cases "frac_scan (drop (Suc i) s)"; auto)
    next
      case nodig: False
      show ?thesis
      proof (cases "s ! i = CHR ''_'' \<and> next_is_digit (drop (Suc i) s)")
        case us: True
        have "parse_fraction s (i + 1) n
              = map_option (\<lambda>(k, m). (i + 1 + k, n + m)) (frac_scan (drop (i + 1) s))"
          using 1(2) c nn nodig us nd 1(3) True by simp
        then show ?thesis using c nn nodig us nd d
          by (subst parse_fraction.simps) (cases "frac_scan (drop (Suc i) s)"; auto)
      next
        case nus: False
        then show ?thesis using c nn nodig nd nz d
          by (subst parse_fraction.simps) auto
      qed
    qed
  qed
qed

text \<open>With a \<^verbatim>\<open>size_t\<close> of 34 bits or more (\<open>10 * BASE + 9 < 2 ^ 34\<close>) the exponent never
  wraps around: it is at most \<open>BASE\<close> before every digit.\<close>
lemma parse_exponent_scan:
  "CHR 0x00 \<notin> set s \<Longrightarrow> i \<le> length s \<Longrightarrow> 34 \<le> size_bits \<Longrightarrow> int v \<le> BASE \<Longrightarrow>
   parse_exponent size_bits s i v = exp_scan (drop i s) v"
proof (induction size_bits s i v rule: parse_exponent.induct)
  case (1 size_bits s i v)
  show ?case
  proof (cases "i < length s")
    case False
    then show ?thesis using 1(2,3)
      by (subst parse_exponent.simps) (simp add: char_at_def)
  next
    case True
    then have d: "drop i s = s ! i # drop (Suc i) s" by (simp add: Cons_nth_drop_Suc)
    have c: "char_at s i = s ! i" using True by (simp add: char_at_def)
    have nn: "s ! i \<noteq> CHR 0x00" using True 1(2) by (metis nth_mem)
    have wrap: "(10 * v + nat (digit_of (s ! i))) mod 2 ^ size_bits = 10 * v + nat (digit_of (s ! i))"
      if dg: "isdigit (s ! i)"
    proof -
      have "nat (digit_of (s ! i)) \<le> 9" using dg unfolding isdigit_def digit_of_def by linarith
      moreover have "v \<le> 1000000000" using 1(5) by (simp add: BASE_def)
      ultimately have "10 * v + nat (digit_of (s ! i)) < 2 ^ 34" by simp
      also have "(2::nat) ^ 34 \<le> 2 ^ size_bits" using 1(4) by (intro power_increasing) simp_all
      finally show ?thesis by simp
    qed
    show ?thesis
    proof (cases "isdigit (s ! i) \<and> \<not> int (10 * v + nat (digit_of (s ! i))) > BASE")
      case ok: True
      have le: "int (10 * v + nat (digit_of (s ! i))) \<le> BASE" using ok by simp
      have il: "i + 1 \<le> length s" using True by simp
      have cn: "char_at s i \<noteq> CHR 0x00" "isdigit (char_at s i)" using c nn ok by simp_all
      have w: "10 * v + nat (digit_of (s ! i))
               = (10 * v + nat (digit_of (char_at s i))) mod 2 ^ size_bits"
        using wrap ok c by simp
      have nb: "\<not> BASE < int (10 * v + nat (digit_of (s ! i)))" using ok by simp
      have "parse_exponent size_bits s (i + 1) (10 * v + nat (digit_of (s ! i)))
            = exp_scan (drop (i + 1) s) (10 * v + nat (digit_of (s ! i)))"
        by (rule 1(1)[OF cn w nb 1(2) il 1(4) le])
      then show ?thesis using c nn ok d wrap
        by (subst parse_exponent.simps) (simp add: Let_def)
    next
      case False
      then show ?thesis using c nn d wrap
        by (subst parse_exponent.simps) (auto simp: Let_def)
    qed
  qed
qed

lemma parse_exponent_scan0:
  "CHR 0x00 \<notin> set s \<Longrightarrow> i \<le> length s \<Longrightarrow> 34 \<le> size_bits \<Longrightarrow>
   parse_exponent size_bits s i 0 = exp_scan (drop i s) 0"
  by (rule parse_exponent_scan) (simp_all add: BASE_def)

fun run_tail :: "string \<Rightarrow> bool" where
  "run_tail [] = True"
| "run_tail (c # cs) = (if c = CHR ''_'' then digit_run cs else digit_run (c # cs))"

lemma digit_run_Cons: "digit_run (c # cs) = (isdigit c \<and> run_tail cs)"
  by (cases cs) auto

lemma digit_run_next: "digit_run cs \<Longrightarrow> next_is_digit cs"
  by (cases cs) (auto simp: next_is_digit_def digit_run_Cons)

lemma sig_scan_char:
  "sig_scan cs =
     (if run_tail (takeWhile (\<lambda>c. \<not> is_mark c) cs)
         \<and> (dropWhile (\<lambda>c. \<not> is_mark c) cs = [] \<or> next_is_digit (tl (dropWhile (\<lambda>c. \<not> is_mark c) cs)))
      then Some (length (takeWhile (\<lambda>c. \<not> is_mark c) cs),
                 length (filter isdigit (takeWhile (\<lambda>c. \<not> is_mark c) cs)))
      else None)"
proof (induction cs)
  case Nil
  show ?case by simp
next
  case (Cons c cs)
  let ?P = "\<lambda>c. \<not> is_mark c"
  show ?case
  proof (cases "is_mark c")
    case True
    then have "\<not> isdigit c" "c \<noteq> CHR ''_''" by (auto simp: is_mark_def)
    then show ?thesis using True by (auto simp: is_mark_def)
  next
    case nm: False
    show ?thesis
    proof (cases "isdigit c")
      case True
      then have "c \<noteq> CHR ''_''" by auto
      then show ?thesis using True nm Cons.IH by (auto simp: digit_run_Cons)
    next
      case nd: False
      show ?thesis
      proof (cases "c = CHR ''_''")
        case False
        then show ?thesis using nd nm by (auto simp: digit_run_Cons is_mark_def)
      next
        case us: True
        show ?thesis
        proof (cases "next_is_digit cs")
          case True
          then obtain d cs' where cs: "cs = d # cs'" and d: "isdigit d"
            by (auto simp: next_is_digit_def split: list.splits)
          have dm: "\<not> is_mark d" "d \<noteq> CHR ''_''" using d by (auto simp: is_mark_def)
          have "run_tail (takeWhile ?P cs) = digit_run (takeWhile ?P cs)"
            using cs dm by simp
          then show ?thesis using us nm True Cons.IH by auto
        next
          case False
          have "\<not> digit_run (takeWhile ?P cs)"
            using False digit_run_next[of "takeWhile ?P cs"]
            by (cases cs) (auto simp: next_is_digit_def split: if_splits)
          then show ?thesis using us nm False by (auto simp: is_mark_def)
        qed
      qed
    qed
  qed
qed

lemma frac_scan_char:
  "frac_scan cs =
     (if run_tail (takeWhile (\<lambda>c. \<not> is_exp_mark c) cs)
         \<and> (dropWhile (\<lambda>c. \<not> is_exp_mark c) cs = []
              \<or> next_is_nonzero_digit (tl (dropWhile (\<lambda>c. \<not> is_exp_mark c) cs)))
      then Some (length (takeWhile (\<lambda>c. \<not> is_exp_mark c) cs),
                 length (filter isdigit (takeWhile (\<lambda>c. \<not> is_exp_mark c) cs)))
      else None)"
proof (induction cs)
  case Nil
  show ?case by simp
next
  case (Cons c cs)
  let ?P = "\<lambda>c. \<not> is_exp_mark c"
  show ?case
  proof (cases "is_exp_mark c")
    case True
    then have "\<not> isdigit c" "c \<noteq> CHR ''_''" by (auto simp: is_exp_mark_def)
    then show ?thesis using True by (auto simp: is_exp_mark_def)
  next
    case nm: False
    show ?thesis
    proof (cases "isdigit c")
      case True
      then have "c \<noteq> CHR ''_''" by auto
      then show ?thesis using True nm Cons.IH by (auto simp: digit_run_Cons)
    next
      case nd: False
      show ?thesis
      proof (cases "c = CHR ''_''")
        case False
        then show ?thesis using nd nm by (auto simp: digit_run_Cons is_exp_mark_def)
      next
        case us: True
        show ?thesis
        proof (cases "next_is_digit cs")
          case True
          then obtain d cs' where cs: "cs = d # cs'" and d: "isdigit d"
            by (auto simp: next_is_digit_def split: list.splits)
          have dm: "\<not> is_exp_mark d" "d \<noteq> CHR ''_''" using d by (auto simp: is_exp_mark_def)
          have "run_tail (takeWhile ?P cs) = digit_run (takeWhile ?P cs)"
            using cs dm by simp
          then show ?thesis using us nm True Cons.IH by auto
        next
          case False
          have "\<not> digit_run (takeWhile ?P cs)"
            using False digit_run_next[of "takeWhile ?P cs"]
            by (cases cs) (auto simp: next_is_digit_def split: if_splits)
          then show ?thesis using us nm False by (auto simp: is_exp_mark_def)
        qed
      qed
    qed
  qed
qed

lemma foldl_dec_mono:
  "v \<le> foldl (\<lambda>v c. 10 * v + nat (digit_of c)) v cs"
proof (induction cs arbitrary: v)
  case Nil
  show ?case by simp
next
  case (Cons c cs)
  have "v \<le> 10 * v + nat (digit_of c)" by simp
  also have "\<dots> \<le> foldl (\<lambda>v c. 10 * v + nat (digit_of c)) (10 * v + nat (digit_of c)) cs"
    by (rule Cons.IH)
  finally show ?case by simp
qed

lemma exp_scan_char_gen:
  "exp_scan cs v =
     (if list_all isdigit cs \<and> int (foldl (\<lambda>v c. 10 * v + nat (digit_of c)) v cs) \<le> BASE \<or> cs = []
      then Some (foldl (\<lambda>v c. 10 * v + nat (digit_of c)) v cs) else None)"
proof (induction cs arbitrary: v)
  case Nil
  show ?case by simp
next
  case (Cons c cs)
  let ?v = "10 * v + nat (digit_of c)"
  show ?case
  proof (cases "isdigit c")
    case False
    then show ?thesis by simp
  next
    case True
    show ?thesis
    proof (cases "int ?v > BASE")
      case big: True
      have "?v \<le> foldl (\<lambda>v c. 10 * v + nat (digit_of c)) ?v cs" by (rule foldl_dec_mono)
      then have "int ?v \<le> int (foldl (\<lambda>v c. 10 * v + nat (digit_of c)) ?v cs)"
        by (rule iffD2[OF of_nat_le_iff])
      then have "\<not> int (foldl (\<lambda>v c. 10 * v + nat (digit_of c)) ?v cs) \<le> BASE"
        using big by linarith
      then show ?thesis using True big by (simp add: Let_def)
    next
      case small: False
      show ?thesis using True small Cons.IH[of ?v] by (auto simp: Let_def)
    qed
  qed
qed

lemma exp_scan_char:
  "cs \<noteq> [] \<Longrightarrow> exp_scan cs 0 =
     (if list_all isdigit cs \<and> int (dec_val cs) \<le> BASE then Some (dec_val cs) else None)"
  by (simp add: exp_scan_char_gen dec_val_def)

lemma next_is_digit_takeWhile:
  "(\<And>c. isdigit c \<Longrightarrow> P c) \<Longrightarrow> next_is_digit (takeWhile P cs) = next_is_digit cs"
  by (cases cs) (auto simp: next_is_digit_def)

lemma run_tail_digit_run:
  "next_is_digit cs \<Longrightarrow> run_tail cs = digit_run cs"
  by (cases cs) (auto simp: next_is_digit_def)

lemma digit_run_has_digit: "digit_run f \<Longrightarrow> 0 < length (filter isdigit f)"
  by (cases f) (auto simp: digit_run_Cons)

lemma drop_length_takeWhile: "drop (length (takeWhile P xs)) xs = dropWhile P xs"
  by (induction xs) auto

lemma char_at_add_drop:
  "drop i s = r \<Longrightarrow> char_at s i = (case r of [] \<Rightarrow> CHR 0x00 | c # _ \<Rightarrow> c)"
  using char_at_drop[of s i] by simp

lemma drop_Cons_next:
  assumes "drop i s = c # x"
  shows "drop (i + 1) s = x \<and> i < length s"
proof -
  have lt: "i < length s" using assms by (cases "i < length s") auto
  then have "drop i s = s ! i # drop (Suc i) s" by (simp add: Cons_nth_drop_Suc)
  then show ?thesis using assms lt by simp
qed

lemma dropWhile_Cons_hd: "dropWhile P xs = c # x \<Longrightarrow> \<not> P c"
  by (induction xs) (auto split: if_splits)

lemma sign_prefix:
  assumes nul: "CHR 0x00 \<notin> set s"
  defines "i0 \<equiv> (if char_at s 0 = CHR ''+'' then 1 else if char_at s 0 = CHR ''-'' then 1 else (0::nat))"
  shows "i0 \<le> length s \<and> drop i0 s = body_of s"
proof (cases s)
  case Nil
  then show ?thesis by (simp add: i0_def char_at_def body_of_def)
next
  case (Cons c cs)
  then show ?thesis by (auto simp: i0_def char_at_def body_of_def)
qed

lemma parse_scan_grammar:
  assumes nul: "CHR 0x00 \<notin> set s" and wide: "34 \<le> size_bits"
  shows "(parse_scan size_bits s \<noteq> None) = code_grammar s"
proof -
  define i0 where "i0 = (if char_at s 0 = CHR ''+'' then 1 else if char_at s 0 = CHR ''-'' then 1 else (0::nat))"
  define body where "body = body_of s"
  define P where "P = (\<lambda>c. \<not> is_mark c)"
  define Q where "Q = (\<lambda>c. \<not> is_exp_mark c)"
  define ip where "ip = takeWhile P body"
  define r1 where "r1 = dropWhile P body"
  define fp where "fp = takeWhile Q (tl r1)"
  define r2f where "r2f = dropWhile Q (tl r1)"
  have i0: "i0 \<le> length s" "drop i0 s = body"
    using sign_prefix[OF nul] by (simp_all add: i0_def body_def)
  have c0: "isdigit (char_at s i0) = next_is_digit body"
    using char_at_add_drop[OF i0(2)] by (auto simp: next_is_digit_def split: list.splits)
  have PQ: "\<And>c. isdigit c \<Longrightarrow> P c" "\<And>c. isdigit c \<Longrightarrow> Q c"
    by (auto simp: P_def Q_def is_mark_def is_exp_mark_def)
  have parts: "literal_parts s =
      (ip, if take 1 r1 = ''.'' then Some fp else None,
       if (if take 1 r1 = ''.'' then r2f else r1) = [] then None
       else Some (tl (if take 1 r1 = ''.'' then r2f else r1)))"
    by (simp add: literal_parts_def Let_def ip_def r1_def fp_def r2f_def P_def Q_def body_def)
  have scan: "parse_scan size_bits s =
      (if \<not> isdigit (char_at s i0) then None
       else case parse_significant s i0 0 of None \<Rightarrow> None
          | Some (i1, sig_digits) \<Rightarrow>
             (case (if char_at s i1 = CHR ''.'' then parse_fraction s (i1 + 1) 0
                    else Some (i1, 0)) of None \<Rightarrow> None
              | Some (e, frac_digits) \<Rightarrow>
                 (case (if char_at s e = CHR ''e'' \<or> char_at s e = CHR ''E''
                        then parse_exponent size_bits s (e + 1) 0 else Some 0) of None \<Rightarrow> None
                  | Some exp \<Rightarrow>
                     if exp < frac_digits then None
                     else Some (char_at s 0 \<noteq> CHR ''+'' \<and> char_at s 0 = CHR ''-'', e, sig_digits, frac_digits, exp))))"
    unfolding parse_scan_def Let_def i0_def by (rule refl)
  show ?thesis
  proof (cases "next_is_digit body")
    case False
    then have "\<not> digit_run ip"
      using digit_run_next[of ip] next_is_digit_takeWhile[of P body] PQ(1) by (auto simp: ip_def)
    then have "\<not> code_grammar s"
      by (simp add: code_grammar_def spec_grammar_def parts)
    then show ?thesis using False c0 scan by simp
  next
    case first: True
    have rt: "run_tail ip = digit_run ip"
      using run_tail_digit_run[of ip] next_is_digit_takeWhile[of P body] PQ(1) first
      by (simp add: ip_def)
    have sg: "parse_significant s i0 0 =
        (if digit_run ip \<and> (r1 = [] \<or> next_is_digit (tl r1))
         then Some (i0 + length ip, length (filter isdigit ip)) else None)"
      using parse_significant_scan[OF nul i0(1), of 0] i0(2) rt
      by (simp add: sig_scan_char[of body] ip_def r1_def P_def)
    show ?thesis
    proof (cases "digit_run ip \<and> (r1 = [] \<or> next_is_digit (tl r1))")
      case False
      have "\<not> code_grammar s"
      proof (cases "digit_run ip")
        case False
        then show ?thesis by (simp add: code_grammar_def spec_grammar_def parts)
      next
        case True
        with False obtain c t where r1c: "r1 = c # t" and nt: "\<not> next_is_digit t"
          by (cases r1) auto
        show ?thesis
        proof (cases "c = CHR ''.''")
          case True
          have "\<not> digit_run fp"
            using digit_run_next[of fp] next_is_digit_takeWhile[of Q t] PQ(2) nt r1c
            by (auto simp: fp_def)
          then show ?thesis using True r1c
            by (simp add: code_grammar_def spec_grammar_def parts)
        next
          case False
          have "t = [] \<or> \<not> list_all isdigit t"
            using nt by (cases t) (auto simp: next_is_digit_def)
          then show ?thesis using False r1c
            by (auto simp: code_grammar_def spec_grammar_def parts)
        qed
      qed
      moreover have "parse_significant s i0 0 = None"
        unfolding sg using False by (rule if_not_P)
      then have "parse_scan size_bits s = None" using first c0 scan by simp
      ultimately show ?thesis by simp
    next
      case sigok: True
      define i1 where "i1 = i0 + length ip"
      have "drop i1 s = drop (length ip) (drop i0 s)"
        by (simp add: i1_def add.commute)
      also have "\<dots> = drop (length ip) body" by (simp only: i0(2))
      also have "\<dots> = r1"
        using drop_length_takeWhile[of P body] by (simp add: r1_def ip_def)
      finally have d1: "drop i1 s = r1" .
      have c1: "char_at s i1 = (case r1 of [] \<Rightarrow> CHR 0x00 | c # _ \<Rightarrow> c)"
        by (rule char_at_add_drop[OF d1])
      have sg': "parse_significant s i0 0 = Some (i1, length (filter isdigit ip))"
        using sg sigok by (simp add: i1_def)
      have hd1: "\<And>c x. r1 = c # x \<Longrightarrow> is_mark c"
        using dropWhile_Cons_hd[of P body] by (simp add: r1_def P_def)
      show ?thesis
      proof (cases "take 1 r1 = ''.''")
        case frac: True
        then obtain t where r1c: "r1 = CHR ''.'' # t" by (cases r1) auto
        have ndt: "next_is_digit t" using sigok r1c by simp
        have i1lt: "i1 < length s" and dt: "drop (i1 + 1) s = t"
          using drop_Cons_next[of i1 s "CHR ''.''" t] d1 r1c by simp_all
        have rtf: "run_tail fp = digit_run fp"
          using run_tail_digit_run[of fp] next_is_digit_takeWhile[of Q t] PQ(2) ndt r1c
          by (simp add: fp_def)
        have fr: "parse_fraction s (i1 + 1) 0 =
            (if digit_run fp \<and> (r2f = [] \<or> next_is_nonzero_digit (tl r2f))
             then Some (i1 + 1 + length fp, length (filter isdigit fp)) else None)"
          using parse_fraction_scan[OF nul, of "i1 + 1" 0] i1lt dt rtf r1c
          by (simp add: frac_scan_char[of t] fp_def r2f_def Q_def)
        show ?thesis
        proof (cases "digit_run fp \<and> (r2f = [] \<or> next_is_nonzero_digit (tl r2f))")
          case False
          have "\<not> code_grammar s"
          proof (cases "digit_run fp")
            case False
            then show ?thesis using frac by (simp add: code_grammar_def spec_grammar_def parts)
          next
            case True
            with False obtain c x where r2c: "r2f = c # x" and nz: "\<not> next_is_nonzero_digit x"
              by (cases r2f) auto
            have "x = [] \<or> \<not> list_all isdigit x \<or> take 1 x = ''0''"
              using nz by (cases x) (auto simp: next_is_nonzero_digit_def)
            then show ?thesis using frac r2c
              by (auto simp: code_grammar_def spec_grammar_def parts)
          qed
          moreover have "parse_fraction s (i1 + 1) 0 = None"
            unfolding fr using False by (rule if_not_P)
          then have "parse_scan size_bits s = None" using sg' first c0 scan c1 r1c by simp
          ultimately show ?thesis by simp
        next
          case fracok: True
          define e where "e = i1 + 1 + length fp"
          have "drop e s = drop (length fp) (drop (i1 + 1) s)"
            by (simp add: e_def add.commute)
          also have "\<dots> = drop (length fp) t" by (simp only: dt)
          also have "\<dots> = r2f"
            using drop_length_takeWhile[of Q t] r1c by (simp add: r2f_def fp_def)
          finally have de: "drop e s = r2f" .
          have ce: "char_at s e = (case r2f of [] \<Rightarrow> CHR 0x00 | c # _ \<Rightarrow> c)"
            by (rule char_at_add_drop[OF de])
          have fr': "parse_fraction s (i1 + 1) 0 = Some (e, length (filter isdigit fp))"
            using fr fracok by (simp add: e_def)
          have nfp: "0 < length (filter isdigit fp)"
            using fracok digit_run_has_digit by blast
          show ?thesis
          proof (cases r2f)
            case Nil
            have "parse_scan size_bits s = None"
              using Nil fr' sg' first c0 scan c1 r1c ce nfp by simp
            moreover have "\<not> code_grammar s"
              using Nil frac nfp by (simp add: code_grammar_def spec_grammar_def parts)
            ultimately show ?thesis by simp
          next
            case (Cons c x)
            have cm: "c = CHR ''e'' \<or> c = CHR ''E''"
              using dropWhile_Cons_hd[of Q "tl r1" c x] Cons
              by (simp add: r2f_def Q_def is_exp_mark_def)
            have nz: "next_is_nonzero_digit x" using fracok Cons by simp
            then have xne: "x \<noteq> []" and x0: "take 1 x \<noteq> ''0''"
              by (cases x; auto simp: next_is_nonzero_digit_def)+
            have elt: "e < length s" and dx: "drop (e + 1) s = x"
              using drop_Cons_next[of e s c x] de Cons by simp_all
            have ex: "parse_exponent size_bits s (e + 1) 0 =
                (if list_all isdigit x \<and> int (dec_val x) \<le> BASE then Some (dec_val x) else None)"
              using parse_exponent_scan0[OF nul _ wide, where i = "e + 1"] elt dx exp_scan_char[OF xne] by simp
            have "(parse_scan size_bits s \<noteq> None) =
                (list_all isdigit x \<and> int (dec_val x) \<le> BASE
                 \<and> \<not> dec_val x < length (filter isdigit fp))"
              using ex fr' sg' first c0 scan c1 r1c ce Cons cm by auto
            moreover have "code_grammar s =
                (list_all isdigit x \<and> int (dec_val x) \<le> BASE
                 \<and> length (filter isdigit fp) \<le> dec_val x)"
              using frac Cons sigok fracok xne x0
              by (auto simp: code_grammar_def spec_grammar_def parts)
            ultimately show ?thesis by auto
          qed
        qed
      next
        case nofrac: False
        have cdot: "char_at s i1 \<noteq> CHR ''.''"
          using nofrac c1 by (cases r1) auto
        show ?thesis
        proof (cases r1)
          case Nil
          have "parse_scan size_bits s \<noteq> None"
            using Nil sg' first c0 scan c1 cdot by simp
          moreover have "code_grammar s"
            using Nil sigok nofrac by (simp add: code_grammar_def spec_grammar_def parts)
          ultimately show ?thesis by simp
        next
          case (Cons c x)
          have cm: "c = CHR ''e'' \<or> c = CHR ''E''"
            using hd1[OF Cons] Cons nofrac by (auto simp: is_mark_def)
          have ndx: "next_is_digit x" using sigok Cons by simp
          then have xne: "x \<noteq> []" by (cases x) (auto simp: next_is_digit_def)
          have i1lt: "i1 < length s" and dx: "drop (i1 + 1) s = x"
            using drop_Cons_next[of i1 s c x] d1 Cons by simp_all
          have ex: "parse_exponent size_bits s (i1 + 1) 0 =
              (if list_all isdigit x \<and> int (dec_val x) \<le> BASE then Some (dec_val x) else None)"
            using parse_exponent_scan0[OF nul _ wide, where i = "i1 + 1"] i1lt dx exp_scan_char[OF xne] by simp
          have "(parse_scan size_bits s \<noteq> None) = (list_all isdigit x \<and> int (dec_val x) \<le> BASE)"
            using ex sg' first c0 scan c1 cdot Cons cm by auto
          moreover have "code_grammar s = (list_all isdigit x \<and> int (dec_val x) \<le> BASE)"
            using nofrac Cons sigok xne
            by (auto simp: code_grammar_def spec_grammar_def parts)
          ultimately show ?thesis by auto
        qed
      qed
    qed
  qed
qed


lemma parse_construct_Some:
  "\<exists>v. parse_construct smin smax s neg e sg fr ex = Some v"
proof (cases "sg + fr + (ex - fr) < LOG_BASE")
  case True
  then show ?thesis
    using integer_from_int_Some by (simp add: parse_construct_def Let_def)
next
  case False
  define cnt where "cnt = (sg + fr + (ex - fr) + (LOG_BASE - 1)) div LOG_BASE"
  define chunk where "chunk = (if (sg + fr + (ex - fr)) mod LOG_BASE = 0 then LOG_BASE
                               else (sg + fr + (ex - fr)) mod LOG_BASE)"
  define b where "b = bigint_alloc cnt neg"
  have "cnt \<le> length (digits b)" by (simp add: b_def roundup_ge)
  from parse_chunks_Some[OF this, of s e 0 chunk] obtain b1 k where
    pc: "parse_chunks s e 0 b cnt chunk = Some (b1, k)" and k: "k \<le> cnt"
    and l1: "length (digits b1) = length (digits b)" by blast
  have "k \<le> length (digits b1)" using k l1 by (simp add: b_def) (meson le_trans roundup_ge)
  from fill_zero_Some[OF this, of 0] obtain b2 where
    fz: "fill_zero b1 0 k = Some b2" and l2: "length (digits b2) = length (digits b1)" by blast
  have "0 < length (digits b2)" using l1 l2 by (simp add: b_def bigint_roundup_count_def)
  from integer_bigint_Some[OF this, of smax] obtain v where "integer_bigint smax b2 = Some v" ..
  then show ?thesis using False pc fz
    by (simp add: parse_construct_def Let_def cnt_def chunk_def b_def)
qed

text \<open>On a 32-bit \<^verbatim>\<open>size_t\<close> the exponent does wrap around: after the nine digits
  \<open>429496730\<close> the tenth digit gives \<open>4294967300 mod 2 ^ 32 = 4\<close>, which passes the test
  \<^verbatim>\<open>exp > BASE\<close>.  On a 64-bit \<^verbatim>\<open>size_t\<close> the same digits are rejected.\<close>
lemma parse_exponent_wraps_32:
  "parse_exponent 32 ''4294967300'' 0 0 = Some 4
   \<and> parse_exponent 64 ''4294967300'' 0 0 = None"
  by (simp add: parse_exponent.simps char_at_def isdigit_def digit_of_def BASE_def)

text \<open>
  Claim C6 as amended: where \<^verbatim>\<open>size_t\<close> has 34 bits or more (the 64-bit build), for every C
  string \<open>s\<close> (no \<^verbatim>\<open>NUL\<close> inside), \<^verbatim>\<open>integer_parse\<close> returns an integer exactly when \<open>s\<close> matches
  the grammar of the spec and, if it has a fractional part, its exponent does not start with
  the digit \<open>0\<close>; every other string yields the parse error.  (On a 32-bit \<^verbatim>\<open>size_t\<close> the
  exponent is computed modulo \<open>2 ^ 32\<close> before it is compared with \<open>BASE\<close>, see
  \<open>parse_exponent_wraps_32\<close>, and the statement is not claimed.)
\<close>

theorem integer_parse_accepts_iff:
  assumes "CHR 0x00 \<notin> set s" and "34 \<le> size_bits"
  shows "(if code_grammar s then \<exists>v. integer_parse size_bits smin smax s = Inr v
          else integer_parse size_bits smin smax s = Inl ParseError)"
proof (cases "parse_scan size_bits s")
  case None
  then have "\<not> code_grammar s" using parse_scan_grammar[OF assms] by simp
  then show ?thesis using None by (simp add: integer_parse_def)
next
  case (Some r)
  then have g: "code_grammar s" using parse_scan_grammar[OF assms] by simp
  obtain neg e sg fr ex where r: "r = (neg, e, sg, fr, ex)" by (cases r) auto
  from parse_construct_Some[of smin smax s neg e sg fr ex] obtain v where
    "parse_construct smin smax s neg e sg fr ex = Some v" ..
  then show ?thesis using g Some r by (simp add: integer_parse_def)
qed

text \<open>
  Claim C6 as stated fails: \<^verbatim>\<open>"1.5e01"\<close> matches the grammar of the spec (exponent \<open>1\<close>, one
  fraction digit), but the fraction loop only stops at an \<open>e\<close> whose next character is a
  digit other than \<open>0\<close>, and the source returns the parse error, on a 64-bit and on a 32-bit
  \<^verbatim>\<open>size_t\<close> alike.
\<close>

theorem integer_parse_grammar_counterexample:
  "spec_grammar ''1.5e01''
   \<and> integer_parse 64 (- 2305843009213693952) 2305843009213693951 ''1.5e01'' = Inl ParseError
   \<and> integer_parse 32 (- 536870912) 536870911 ''1.5e01'' = Inl ParseError"
  by (simp add: spec_grammar_def literal_parts_def body_of_def is_mark_def is_exp_mark_def
      dec_val_def BASE_def digit_of_def isdigit_def integer_parse_def parse_scan_def char_at_def
      parse_significant.simps parse_fraction.simps)

text \<open>The amended claim on a 64-bit \<^verbatim>\<open>size_t\<close> at two strings, one accepted and one
  rejected.\<close>

theorem integer_parse_accepts_iff_witness:
  "CHR 0x00 \<notin> set ''-1_0.5e2'' \<and> (34::nat) \<le> 64 \<and> code_grammar ''-1_0.5e2''
   \<and> (\<exists>v. integer_parse 64 (- 2305843009213693952) 2305843009213693951 ''-1_0.5e2'' = Inr v)
   \<and> \<not> code_grammar ''1.5e01''
   \<and> integer_parse 64 (- 2305843009213693952) 2305843009213693951 ''1.5e01'' = Inl ParseError"
proof -
  have n1: "CHR 0x00 \<notin> set ''-1_0.5e2''" by simp
  have n2: "CHR 0x00 \<notin> set ''1.5e01''" by simp
  have w: "(34::nat) \<le> 64" by simp
  have g1: "code_grammar ''-1_0.5e2''"
    by (simp add: code_grammar_def spec_grammar_def literal_parts_def body_of_def is_mark_def
        is_exp_mark_def dec_val_def BASE_def digit_of_def isdigit_def)
  have g2: "\<not> code_grammar ''1.5e01''"
    by (simp add: code_grammar_def spec_grammar_def literal_parts_def body_of_def is_mark_def
        is_exp_mark_def dec_val_def BASE_def digit_of_def isdigit_def)
  show ?thesis
    using integer_parse_accepts_iff[OF n1 w, of "- 2305843009213693952" 2305843009213693951]
          integer_parse_accepts_iff[OF n2 w, of "- 2305843009213693952" 2305843009213693951]
          n1 g1 g2
    by simp
qed

subsection \<open>Round trip through decimal strings\<close>


lemma c_div_nonneg: "0 \<le> a \<Longrightarrow> 0 < b \<Longrightarrow> c_div a b = a div b"
  by (cases "a = 0") (simp_all add: c_div_def sgn_if)

lemma c_mod_nonneg: "0 \<le> a \<Longrightarrow> 0 < b \<Longrightarrow> c_mod a b = a mod b"
  by (simp add: c_mod_def c_div_nonneg minus_div_mult_eq_mod)

lemma of_char_char_of_int: "(of_char (char_of (k::int)) :: nat) = nat (k mod 256)"
  by (metis nat_of_char of_char_of)

lemma digit_char:
  assumes "0 \<le> m" "m < 10"
  shows "isdigit (char_of (48 + (m::int)))" "digit_of (char_of (48 + m)) = m"
        "(char_of (48 + m) = CHR ''0'') = (m = 0)"
proof -
  have "m = 0 \<or> m = 1 \<or> m = 2 \<or> m = 3 \<or> m = 4 \<or> m = 5 \<or> m = 6 \<or> m = 7 \<or> m = 8 \<or> m = 9"
    using assms by arith
  then show "isdigit (char_of (48 + (m::int)))" "digit_of (char_of (48 + m)) = m"
        "(char_of (48 + m) = CHR ''0'') = (m = 0)"
    by (auto simp: isdigit_def digit_of_def of_char_char_of_int char_of_eq_iff take_bit_eq_mod)
qed

lemma dec_val_snoc: "dec_val (xs @ [c]) = 10 * dec_val xs + nat (digit_of c)"
  by (simp add: dec_val_def)

lemma dec_val_foldl:
  "foldl (\<lambda>v c. 10 * v + nat (digit_of c)) v cs
   = v * 10 ^ length cs + foldl (\<lambda>v c. 10 * v + nat (digit_of c)) 0 cs"
proof (induction cs arbitrary: v)
  case Nil
  show ?case by simp
next
  case (Cons c cs)
  have "foldl (\<lambda>v c. 10 * v + nat (digit_of c)) v (c # cs)
        = (10 * v + nat (digit_of c)) * 10 ^ length cs
          + foldl (\<lambda>v c. 10 * v + nat (digit_of c)) 0 cs"
    using Cons.IH[of "10 * v + nat (digit_of c)"] by simp
  moreover have "foldl (\<lambda>v c. 10 * v + nat (digit_of c)) 0 (c # cs)
        = nat (digit_of c) * 10 ^ length cs
          + foldl (\<lambda>v c. 10 * v + nat (digit_of c)) 0 cs"
    using Cons.IH[of "nat (digit_of c)"] by simp
  ultimately show ?case by (simp add: algebra_simps)
qed

lemma dec_val_Nil [simp]: "dec_val [] = 0"
  by (simp add: dec_val_def)

lemma dec_val_Cons: "dec_val (c # cs) = nat (digit_of c) * 10 ^ length cs + dec_val cs"
  using dec_val_foldl[of "nat (digit_of c)" cs] by (simp add: dec_val_def)

lemma dec_val_append: "dec_val (xs @ ys) = dec_val xs * 10 ^ length ys + dec_val ys"
  by (induction xs) (simp_all add: dec_val_Cons power_add algebra_simps)

lemma digit_of_zero [simp]: "digit_of (CHR ''0'') = 0"
  by (simp add: digit_of_def)

lemma dec_val_dropWhile_zero: "dec_val (dropWhile (\<lambda>c. c = CHR ''0'') xs) = dec_val xs"
  by (induction xs) (simp_all add: dec_val_Cons)

lemma dec_val_pos_dropWhile:
  "0 < dec_val xs \<Longrightarrow> dropWhile (\<lambda>c. c = CHR ''0'') xs \<noteq> []
     \<and> hd (dropWhile (\<lambda>c. c = CHR ''0'') xs) \<noteq> CHR ''0''"
  using dec_val_dropWhile_zero[of xs] hd_dropWhile[of "\<lambda>c. c = CHR ''0''" xs]
  by (cases "dropWhile (\<lambda>c. c = CHR ''0'') xs") auto

lemma digit_to_str_loop_props:
  "0 \<le> d \<Longrightarrow> length (digit_to_str_loop n d) = n \<and> list_all isdigit (digit_to_str_loop n d)
     \<and> int (dec_val (digit_to_str_loop n d)) = d mod 10 ^ n"
proof (induction n arbitrary: d)
  case 0
  show ?case by simp
next
  case (Suc n)
  have d10: "0 \<le> d div 10" using Suc.prems by simp
  have m: "0 \<le> d mod 10" "d mod 10 < 10" by simp_all
  note ih = Suc.IH[OF d10]
  have cd: "c_div d 10 = d div 10" "c_mod d 10 = d mod 10"
    using Suc.prems by (simp_all add: c_div_nonneg c_mod_nonneg)
  have "int (dec_val (digit_to_str_loop (Suc n) d))
        = 10 * ((d div 10) mod 10 ^ n) + d mod 10"
    using ih digit_char(2)[OF m] by (simp add: cd dec_val_snoc)
  also have "\<dots> = d mod 10 ^ Suc n"
    using zmod_zmult2_eq[of "10 ^ n" d 10] by simp
  finally show ?case using ih digit_char(1)[OF m] by (simp add: cd)
qed

lemma digit_to_str_full_props:
  assumes "0 \<le> d" "d < BASE"
  shows "length (digit_to_str_full d) = 9" "list_all isdigit (digit_to_str_full d)"
        "int (dec_val (digit_to_str_full d)) = d"
  using digit_to_str_loop_props[OF assms(1), of LOG_BASE] assms
  by (simp_all add: digit_to_str_full_def LOG_BASE_def BASE_def)

lemma digit_to_str_partial_props:
  assumes "0 < d" "d < BASE"
  shows "digit_to_str_partial d \<noteq> []" "hd (digit_to_str_partial d) \<noteq> CHR ''0''"
        "list_all isdigit (digit_to_str_partial d)" "int (dec_val (digit_to_str_partial d)) = d"
        "length (digit_to_str_partial d) \<le> 9"
proof -
  have d0: "0 \<le> d" using assms by simp
  note f = digit_to_str_full_props[OF d0 assms(2)]
  have pos: "0 < dec_val (digit_to_str_full d)" using f(3) assms by linarith
  have eq: "digit_to_str_partial d = dropWhile (\<lambda>c. c = CHR ''0'') (digit_to_str_full d)"
    using assms by (simp add: digit_to_str_partial_def)
  show "digit_to_str_partial d \<noteq> []" "hd (digit_to_str_partial d) \<noteq> CHR ''0''"
    using dec_val_pos_dropWhile[OF pos] by (simp_all add: eq)
  show "list_all isdigit (digit_to_str_partial d)"
    using f(2) unfolding eq list_all_iff by (meson set_dropWhileD)
  show "int (dec_val (digit_to_str_partial d)) = d"
    using f(3) by (simp add: eq dec_val_dropWhile_zero)
  show "length (digit_to_str_partial d) \<le> 9"
    using f(1) length_dropWhile_le[of "\<lambda>c. c = CHR ''0''" "digit_to_str_full d"] by (simp add: eq)
qed

lemma digits_val_snoc: "digits_val (xs @ [d]) = digits_val xs + BASE ^ length xs * d"
  by (induction xs) (simp_all add: algebra_simps)

lemma BASE_pow: "BASE ^ n = 10 ^ (9 * n)"
  by (simp add: BASE_def power_mult)

lemma rest_digits_to_str_props:
  "n \<le> length (digits b) \<Longrightarrow> list_all (\<lambda>d. 0 \<le> d \<and> d < BASE) (take n (digits b)) \<Longrightarrow>
   \<exists>r. rest_digits_to_str b n = Some r \<and> length r = 9 * n \<and> list_all isdigit r
       \<and> int (dec_val r) = digits_val (take n (digits b))"
proof (induction n)
  case 0
  show ?case by simp
next
  case (Suc n)
  have lt: "n < length (digits b)" using Suc.prems by simp
  have tk: "take (Suc n) (digits b) = take n (digits b) @ [digits b ! n]"
    using lt by (simp add: take_Suc_conv_app_nth)
  have rng: "0 \<le> digits b ! n" "digits b ! n < BASE"
    and rest: "list_all (\<lambda>d. 0 \<le> d \<and> d < BASE) (take n (digits b))"
    using Suc.prems(2) by (simp_all add: tk)
  from Suc.IH[OF _ rest] lt obtain r where r: "rest_digits_to_str b n = Some r"
    "length r = 9 * n" "list_all isdigit r" "int (dec_val r) = digits_val (take n (digits b))"
    by auto
  note f = digit_to_str_full_props[OF rng]
  have "int (dec_val (digit_to_str_full (digits b ! n) @ r))
        = digits b ! n * 10 ^ (9 * n) + digits_val (take n (digits b))"
    using f(3) r(2,4) by (simp add: dec_val_append)
  then show ?case using r f lt
    by (simp add: rd_def tk digits_val_snoc BASE_pow)
qed

lemma digits_val_nonneg: "list_all (\<lambda>d. 0 \<le> d \<and> d < BASE) xs \<Longrightarrow> 0 \<le> digits_val xs"
  by (induction xs) (simp_all add: BASE_def)

lemma digits_val_pos:
  "list_all (\<lambda>d. 0 \<le> d \<and> d < BASE) xs \<Longrightarrow> xs \<noteq> [] \<Longrightarrow> last xs \<noteq> 0 \<Longrightarrow> 0 < digits_val xs"
proof (induction xs)
  case Nil
  then show ?case by simp
next
  case (Cons d xs)
  show ?case
  proof (cases "xs = []")
    case True
    then show ?thesis using Cons.prems by simp
  next
    case False
    then have "0 < digits_val xs" using Cons by simp
    then have "0 < BASE * digits_val xs" by (simp add: BASE_def)
    then show ?thesis using Cons.prems(1) by simp
  qed
qed

lemma skip_leading_zeros_top:
  "m < length (digits b) \<Longrightarrow> (0 < m \<Longrightarrow> digits b ! m \<noteq> 0) \<Longrightarrow> skip_leading_zeros b m = Some m"
  by (cases m) (simp_all add: rd_def)

lemma bigint_to_buf_canonical:
  assumes "canonical b"
  shows "\<exists>ds. bigint_to_buf b = Some ((if is_neg b then ''-'' else []) @ ds) \<and> ds \<noteq> []
            \<and> hd ds \<noteq> CHR ''0'' \<and> list_all isdigit ds \<and> int (dec_val ds) = digits_val (live b)"
proof -
  obtain m where m: "count b = Suc m" using assms by (cases "count b") (auto simp: canonical_def in_range_def)
  have len: "Suc m \<le> length (digits b)" using assms m by (simp add: canonical_def in_range_def)
  have lv: "live b = take m (digits b) @ [digits b ! m]"
    using len m by (simp add: live_def take_Suc_conv_app_nth)
  have all: "list_all (\<lambda>d. 0 \<le> d \<and> d < BASE) (take m (digits b))"
    and top: "0 \<le> digits b ! m" "digits b ! m < BASE" "digits b ! m \<noteq> 0"
    using assms by (simp_all add: canonical_def in_range_def lv)
  have top': "0 < digits b ! m" using top by simp
  from rest_digits_to_str_props[OF _ all] len obtain r where r:
    "rest_digits_to_str b m = Some r" "length r = 9 * m" "list_all isdigit r"
    "int (dec_val r) = digits_val (take m (digits b))" by auto
  note p = digit_to_str_partial_props[OF top' top(2)]
  have sk: "skip_leading_zeros b m = Some m"
    using skip_leading_zeros_top[of m b] len top by simp
  let ?ds = "digit_to_str_partial (digits b ! m) @ r"
  have "bigint_to_buf b = Some ((if is_neg b then ''-'' else []) @ ?ds)"
    using m sk r(1) len by (simp add: bigint_to_buf_def bigint_count_def bigint_is_neg_def rd_def)
  moreover have "int (dec_val ?ds) = digits_val (live b)"
    using p(4) r(2,4) len by (simp add: dec_val_append lv digits_val_snoc BASE_pow)
  moreover have "?ds \<noteq> []" "hd ?ds \<noteq> CHR ''0''" "list_all isdigit ?ds"
    using p r(3) by simp_all
  ultimately show ?thesis by blast
qed

lemma int_to_string_loop_props:
  "0 < n \<Longrightarrow> n < 10 ^ (63 - i) \<Longrightarrow>
   int_to_string_loop i n \<noteq> [] \<and> list_all isdigit (int_to_string_loop i n)
   \<and> last (int_to_string_loop i n) \<noteq> CHR ''0''
   \<and> int (dec_val (rev (int_to_string_loop i n))) = n"
proof (induction i n rule: int_to_string_loop.induct)
  case (1 i n)
  have i63: "i < 63"
  proof (rule ccontr)
    assume "\<not> i < 63"
    then have "63 - i = 0" by simp
    then show False using "1.prems" by simp
  qed
  have m: "0 \<le> n mod 10" "n mod 10 < 10" by simp_all
  have cd: "c_div n 10 = n div 10" "c_mod n 10 = n mod 10"
    using "1.prems" by (simp_all add: c_div_nonneg c_mod_nonneg)
  have unf: "int_to_string_loop i n
             = char_of (48 + n mod 10) # int_to_string_loop (i + 1) (n div 10)"
    using i63 "1.prems" by (subst int_to_string_loop.simps) (simp add: cd)
  show ?case
  proof (cases "n div 10 = 0")
    case True
    then have n10: "n mod 10 = n" using "1.prems" by simp
    have e: "int_to_string_loop (Suc i) 0 = []"
      by (subst int_to_string_loop.simps) simp
    have "n mod 10 \<noteq> 0" using n10 "1.prems" by simp
    then show ?thesis
      using digit_char[OF m] n10 True by (simp add: unf e dec_val_Cons)
  next
    case False
    then have pos: "0 < n div 10" using "1.prems" by (simp add: pos_imp_zdiv_pos_iff)
    have "63 - i = Suc (63 - (i + 1))" using i63 by simp
    then have "n < 10 * 10 ^ (63 - (i + 1))" using "1.prems"(2) by simp
    then have lt: "n div 10 < 10 ^ (63 - (i + 1))" by simp
    have ih: "int_to_string_loop (i + 1) (n div 10) \<noteq> []
      \<and> list_all isdigit (int_to_string_loop (i + 1) (n div 10))
      \<and> last (int_to_string_loop (i + 1) (n div 10)) \<noteq> CHR ''0''
      \<and> int (dec_val (rev (int_to_string_loop (i + 1) (n div 10)))) = n div 10"
      using "1.IH" i63 "1.prems" pos lt by (simp add: cd)
    show ?thesis
      using ih digit_char[OF m] by (simp add: unf dec_val_snoc)
  qed
qed

lemma integer_to_string_props:
  assumes "wf_integer x"
  shows "\<exists>ds. integer_to_string x = Some ((if integer_val x < 0 then ''-'' else []) @ ds)
            \<and> ds \<noteq> [] \<and> list_all isdigit ds \<and> (ds = ''0'' \<or> hd ds \<noteq> CHR ''0'')
            \<and> int (dec_val ds) = \<bar>integer_val x\<bar>"
proof (cases x)
  case (Big b)
  then have c: "canonical b" using assms by (simp add: wf_integer_def)
  have "live b \<noteq> []" using c by (auto simp: canonical_def in_range_def live_def)
  then have pos: "0 < digits_val (live b)"
    using c digits_val_pos[of "live b"] by (simp add: canonical_def in_range_def)
  from bigint_to_buf_canonical[OF c] show ?thesis
    using Big pos by (auto simp: bigint_to_string_def bigint_val_def)
next
  case (Small i)
  show ?thesis
  proof (cases "i = 0")
    case True
    then show ?thesis using Small by (simp add: int_to_string_def dec_val_Cons)
  next
    case False
    define n where "n = \<bar>i\<bar>"
    have n: "0 < n" "n < 10 ^ (63 - 0)"
      using False assms Small by (simp_all add: n_def wf_integer_def)
    note l = int_to_string_loop_props[OF n]
    have "int_to_string i = (if i < 0 then ''-'' else []) @ rev (int_to_string_loop 0 n)"
      using False by (auto simp: int_to_string_def Let_def n_def)
    then show ?thesis using l Small by (auto simp: hd_rev n_def)
  qed
qed

lemma in_range_simps [simp]:
  "in_range []" "in_range (d # ds) = (0 \<le> d \<and> d < BASE \<and> in_range ds)"
  "in_range (xs @ ys) = (in_range xs \<and> in_range ys)"
  by (auto simp: in_range_def)

lemma digits_val_append:
  "digits_val (xs @ ys) = digits_val xs + BASE ^ length xs * digits_val ys"
  by (induction xs) (simp_all add: algebra_simps)


lemma from_int_loop_props:
  "wf_buf b \<Longrightarrow> 0 \<le> i \<Longrightarrow>
   \<exists>z ds. from_int_loop b i = Some z \<and> wf_buf z \<and> is_neg z = is_neg b
      \<and> live z = live b @ ds \<and> ds \<noteq> [] \<and> in_range ds \<and> digits_val ds = i
      \<and> (0 < i \<longrightarrow> last ds \<noteq> 0)"
proof (induction b i rule: from_int_loop.induct)
  case (1 b i)
  from bigint_push_Some[OF "1.prems"(1), of "i mod BASE"] obtain b' where
    p: "bigint_push b (i mod BASE) = Some b'" and wf: "wf_buf b'" and n: "is_neg b' = is_neg b"
    and lv: "live b' = live b @ [i mod BASE]"
    by blast
  have m: "0 \<le> i mod BASE" "i mod BASE < BASE" by (simp_all add: BASE_def)
  show ?case
  proof (cases "i div BASE > 0")
    case True
    have "0 \<le> i div BASE" using True by simp
    from "1.IH"[OF p True wf this] obtain z ds where z:
      "from_int_loop b' (i div BASE) = Some z" "wf_buf z" "is_neg z = is_neg b'"
      "live z = live b' @ ds" "ds \<noteq> []" "in_range ds" "digits_val ds = i div BASE"
      "0 < i div BASE \<longrightarrow> last ds \<noteq> 0" by blast
    have "from_int_loop b i = Some z"
      using p True z(1) by (subst from_int_loop.simps) simp
    moreover have "live z = live b @ (i mod BASE # ds)" using z(4) lv by simp
    moreover have "digits_val (i mod BASE # ds) = i" using z(7) by simp
    moreover have "last (i mod BASE # ds) \<noteq> 0" using z(5,8) True by simp
    ultimately show ?thesis using z(2,3,6) n m by (intro exI[of _ z] exI[of _ "i mod BASE # ds"]) simp
  next
    case False
    then have "i < BASE"
      using pos_imp_zdiv_pos_iff[of BASE i] by (simp add: BASE_def)
    then have im: "i mod BASE = i" using "1.prems"(2) by simp
    have "from_int_loop b i = Some b'"
      using p False by (subst from_int_loop.simps) simp
    then show ?thesis using wf n lv m im
      by (intro exI[of _ b'] exI[of _ "[i]"]) simp
  qed
qed

lemma bigint_from_int_props:
  "\<exists>z. bigint_from_int i = Some z \<and> wf_buf z \<and> is_neg z = (i < 0) \<and> live z \<noteq> []
       \<and> in_range (live z) \<and> digits_val (live z) = \<bar>i\<bar> \<and> (i \<noteq> 0 \<longrightarrow> last (live z) \<noteq> 0)"
proof -
  have a: "0 \<le> \<bar>i\<bar>" by simp
  have l0: "live (bigint_alloc 0 (i < 0)) = []" by (simp add: live_def)
  from from_int_loop_props[OF bigint_alloc_wf a, of 0 "i < 0"] l0
  obtain z ds where "from_int_loop (bigint_alloc 0 (i < 0)) \<bar>i\<bar> = Some z" "wf_buf z"
    "is_neg z = (i < 0)" "live z = ds" "ds \<noteq> []" "in_range ds" "digits_val ds = \<bar>i\<bar>"
    "0 < \<bar>i\<bar> \<longrightarrow> last ds \<noteq> 0" by auto
  moreover have "bigint_from_int i = from_int_loop (bigint_alloc 0 (i < 0)) \<bar>i\<bar>"
    by (simp add: bigint_from_int_def Let_def abs_if)
  ultimately show ?thesis by auto
qed

lemma bigint_from_int_val:
  "\<exists>z. bigint_from_int i = Some z \<and> bigint_val z = i"
  using bigint_from_int_props[of i] by (auto simp: bigint_val_def)

lemma integer_from_int_val:
  "\<exists>v. integer_from_int smin smax i = Some v \<and> integer_val v = i"
  using bigint_from_int_val[of i] by (auto simp: integer_from_int_def integer_from_big_def)

lemma sig_scan_digits: "list_all isdigit ds \<Longrightarrow> sig_scan ds = Some (length ds, length ds)"
  by (induction ds) simp_all

lemma parse_scan_digits:
  assumes "ds \<noteq> []" "list_all isdigit ds" "sign = ''-'' \<or> sign = []"
  shows "parse_scan size_bits (sign @ ds) = Some (sign = ''-'', length (sign @ ds), length ds, 0, 0)"
proof -
  let ?s = "sign @ ds"
  obtain c cs where ds: "ds = c # cs" using assms(1) by (cases ds) auto
  have c: "isdigit c" using assms(2) ds by simp
  have nul: "CHR 0x00 \<notin> set ?s"
    using assms(2,3) by (auto simp: list_all_iff)
  define i0 where "i0 = length sign"
  have c0: "char_at ?s 0 = (if sign = ''-'' then CHR ''-'' else c)"
    using assms(3) ds by (auto simp: char_at_def)
  have cplus: "c \<noteq> CHR ''+''" "c \<noteq> CHR ''-''" using c by auto
  have i0': "(if char_at ?s 0 = CHR ''+'' then 1 else if char_at ?s 0 = CHR ''-'' then 1 else (0::nat)) = i0"
    using assms(3) cplus by (auto simp: c0 i0_def)
  have neg: "(char_at ?s 0 \<noteq> CHR ''+'' \<and> char_at ?s 0 = CHR ''-'') = (sign = ''-'')"
    using assms(3) cplus by (auto simp: c0)
  have d0: "drop i0 ?s = ds" by (simp add: i0_def)
  have ci0: "char_at ?s i0 = c" using char_at_add_drop[OF d0] ds by simp
  have sg: "parse_significant ?s i0 0 = Some (length ?s, length ds)"
    using parse_significant_scan[OF nul, of i0 0] d0 sig_scan_digits[OF assms(2)]
    by (simp add: i0_def)
  have ce: "char_at ?s (length ?s) = CHR 0x00" by (simp add: char_at_def)
  show ?thesis
    unfolding parse_scan_def Let_def i0' neg
    using ci0 c sg ce by simp
qed

lemma digit_of_nonneg: "isdigit c \<Longrightarrow> 0 \<le> digit_of c \<and> digit_of c \<le> 9"
  by (auto simp: isdigit_def digit_of_def)

lemma small_digits_foldl:
  "list_all isdigit ds \<Longrightarrow>
   foldl (\<lambda>d c. if isdigit c then 10 * d + digit_of c else d) (int v) ds
   = int (foldl (\<lambda>v c. 10 * v + nat (digit_of c)) v ds)"
proof (induction ds arbitrary: v)
  case Nil
  show ?case by simp
next
  case (Cons c ds)
  have c: "isdigit c" and r: "list_all isdigit ds" using Cons.prems by simp_all
  have "10 * int v + digit_of c = int (10 * v + nat (digit_of c))"
    using digit_of_nonneg[OF c] by simp
  then show ?case using Cons.IH[OF r, of "10 * v + nat (digit_of c)"] c by simp
qed

lemma parse_small_digits_sign:
  assumes "list_all isdigit ds" "sign = ''-'' \<or> sign = []"
  shows "parse_small_digits (sign @ ds) (length (sign @ ds)) = int (dec_val ds)"
  using assms small_digits_foldl[OF assms(1), of 0]
  by (auto simp: parse_small_digits_def dec_val_def)

lemma dec_val_bound: "list_all isdigit xs \<Longrightarrow> dec_val xs < 10 ^ length xs"
proof (induction xs rule: rev_induct)
  case Nil
  show ?case by simp
next
  case (snoc c xs)
  have "nat (digit_of c) \<le> 9" using digit_of_nonneg[of c] snoc.prems by auto
  moreover have "dec_val xs + 1 \<le> 10 ^ length xs" using snoc by simp
  ultimately have "10 * dec_val xs + nat (digit_of c) < 10 * 10 ^ length xs" by linarith
  then show ?case by (simp add: dec_val_snoc)
qed

lemma parse_chunk_digits:
  "chunk = j + m \<Longrightarrow> p + m \<le> e \<Longrightarrow> e \<le> length s \<Longrightarrow>
   list_all isdigit (take m (drop p s)) \<Longrightarrow>
   parse_chunk s e chunk p j d = (p + m, d * 10 ^ m + int (dec_val (take m (drop p s))))"
proof (induction m arbitrary: p j d)
  case 0
  then show ?case by (subst parse_chunk.simps) simp
next
  case (Suc m)
  have jc: "j < chunk" using Suc.prems by simp
  have pe: "p < e" using Suc.prems by simp
  have pl: "p < length s" using Suc.prems by simp
  have dr: "drop p s = s ! p # drop (p + 1) s" using pl by (simp add: Cons_nth_drop_Suc)
  have tk: "take (Suc m) (drop p s) = s ! p # take m (drop (p + 1) s)" by (subst dr) simp
  have c: "isdigit (s ! p)" and rest: "list_all isdigit (take m (drop (p + 1) s))"
    using Suc.prems(4) by (simp_all add: tk)
  have len: "length (take m (drop (p + 1) s)) = m" using Suc.prems by simp
  have ih: "parse_chunk s e chunk (p + 1) (j + 1) (10 * d + digit_of (s ! p))
      = (p + 1 + m, (10 * d + digit_of (s ! p)) * 10 ^ m + int (dec_val (take m (drop (p + 1) s))))"
    using Suc.IH[of "j + 1" "p + 1" "10 * d + digit_of (s ! p)"] Suc.prems rest by simp
  have "parse_chunk s e chunk p j d
        = parse_chunk s e chunk (p + 1) (j + 1) (10 * d + digit_of (s ! p))"
    using jc pe pl c by (subst parse_chunk.simps) (simp add: char_at_def)
  then show ?case
    using ih len digit_of_nonneg[OF c] by (simp add: tk dec_val_Cons algebra_simps)
qed

lemma integer_bigint_val:
  "0 < length (digits b) \<Longrightarrow> \<exists>v. integer_bigint smax b = Some v \<and> integer_val v = bigint_val b"
  by (cases "digits b") (auto simp: integer_bigint_def rd_def bigint_val_def live_def)

lemma parse_chunks_digits:
  "e \<le> length s \<Longrightarrow> p + 9 * k = e \<Longrightarrow> list_all isdigit (drop p (take e s)) \<Longrightarrow>
   k \<le> length (digits b) \<Longrightarrow>
   \<exists>b'. parse_chunks s e p b k LOG_BASE = Some (b', 0)
      \<and> length (digits b') = length (digits b) \<and> count b' = count b \<and> is_neg b' = is_neg b
      \<and> extra b' = extra b
      \<and> drop k (digits b') = drop k (digits b)
      \<and> in_range (take k (digits b'))
      \<and> digits_val (take k (digits b')) = int (dec_val (drop p (take e s)))"
proof (induction k arbitrary: p b)
  case 0
  then show ?case by (subst parse_chunks.simps) simp
next
  case (Suc k)
  have pe: "p < e" using Suc.prems by simp
  let ?first = "take 9 (drop p s)"
  let ?d = "int (dec_val ?first)"
  let ?b = "b\<lparr>digits := (digits b)[k := ?d]\<rparr>"
  have split: "drop p (take e s) = ?first @ drop (p + 9) (take e s)"
  proof -
    have "drop p (take e s) = take 9 (drop p (take e s)) @ drop 9 (drop p (take e s))"
      by (rule append_take_drop_id[symmetric])
    moreover have "take 9 (drop p (take e s)) = take 9 (drop p s)"
      using Suc.prems(2) by (simp add: drop_take)
    moreover have "drop 9 (drop p (take e s)) = drop (p + 9) (take e s)"
      by (simp add: add.commute)
    ultimately show ?thesis by (simp only:)
  qed
  have fd: "list_all isdigit ?first" and rd': "list_all isdigit (drop (p + 9) (take e s))"
    using Suc.prems(3) by (simp_all add: split)
  have lf: "length ?first = 9" using Suc.prems by simp
  have lr: "length (drop (p + 9) (take e s)) = 9 * k" using Suc.prems by simp
  have pc: "parse_chunk s e LOG_BASE p 0 0 = (p + 9, ?d)"
    using parse_chunk_digits[of LOG_BASE 0 9 p e s 0] Suc.prems fd by (simp add: LOG_BASE_def)
  have w: "wr b k ?d = Some ?b" using Suc.prems(4) by (simp add: wr_Some)
  have a1: "e \<le> length s" by (rule Suc.prems(1))
  have a2: "p + 9 + 9 * k = e" using Suc.prems(2) by simp
  have a4: "k \<le> length (digits ?b)" using Suc.prems(4) by simp
  from Suc.IH[OF a1 a2 rd' a4]
  obtain b' where b'0: "parse_chunks s e (p + 9) ?b k LOG_BASE = Some (b', 0)
      \<and> length (digits b') = length (digits ?b) \<and> count b' = count ?b \<and> is_neg b' = is_neg ?b
      \<and> extra b' = extra ?b
      \<and> drop k (digits b') = drop k (digits ?b)
      \<and> in_range (take k (digits b'))
      \<and> digits_val (take k (digits b')) = int (dec_val (drop (p + 9) (take e s)))" ..
  then have b': "parse_chunks s e (p + 9) ?b k LOG_BASE = Some (b', 0)"
    "length (digits b') = length (digits b)" "count b' = count b" "is_neg b' = is_neg b"
    "extra b' = extra b"
    "drop k (digits b') = drop k ((digits b)[k := ?d])"
    "in_range (take k (digits b'))"
    "digits_val (take k (digits b')) = int (dec_val (drop (p + 9) (take e s)))"
    by simp_all
  have klt: "k < length (digits b)" using Suc.prems(4) by simp
  have dk: "drop k (digits b') = ?d # drop (Suc k) (digits b)"
    using b'(6) klt by (simp add: drop_update_cancel Cons_nth_drop_Suc[symmetric] upd_conv_take_nth_drop)
  have nth: "digits b' ! k = ?d" and dS: "drop (Suc k) (digits b') = drop (Suc k) (digits b)"
  proof -
    have "drop k (digits b') = digits b' ! k # drop (Suc k) (digits b')"
      using klt b'(2) by (simp add: Cons_nth_drop_Suc)
    then show "digits b' ! k = ?d" "drop (Suc k) (digits b') = drop (Suc k) (digits b)"
      using dk by simp_all
  qed
  have tk: "take (Suc k) (digits b') = take k (digits b') @ [?d]"
    using klt b'(2) nth by (simp add: take_Suc_conv_app_nth)
  have dlt: "?d < BASE"
    using dec_val_bound[OF fd] lf by (simp add: BASE_def)
  have val: "digits_val (take (Suc k) (digits b')) = int (dec_val (drop p (take e s)))"
    using b'(8) klt b'(2) lr
    by (subst split) (simp add: tk digits_val_snoc dec_val_append BASE_pow)
  have "parse_chunks s e p b (Suc k) LOG_BASE = Some (b', 0)"
    using pe pc w b'(1) by (subst parse_chunks.simps) simp
  then show ?case using b' dS tk dlt val by (intro exI[of _ b']) simp
qed

lemma parse_chunk_first:
  assumes "list_all isdigit ds" "sign = ''-'' \<or> sign = []" "0 < c0" "c0 \<le> length ds"
  shows "parse_chunk (sign @ ds) (length (sign @ ds)) c0 0 0 0
         = (length sign + c0, int (dec_val (take c0 ds)))"
proof -
  let ?s = "sign @ ds"
  have td: "list_all isdigit (take c0 ds)"
    using assms(1) unfolding list_all_iff by (meson in_set_takeD)
  have main: "parse_chunk ?s (length ?s) c0 (length sign) 0 0
         = (length sign + c0, int (dec_val (take c0 ds)))"
    using parse_chunk_digits[of c0 0 c0 "length sign" "length ?s" ?s 0] assms td by simp
  show ?thesis
  proof (cases "sign = []")
    case True
    then show ?thesis using main by simp
  next
    case False
    then have sg: "sign = ''-''" using assms(2) by simp
    have "parse_chunk ?s (length ?s) c0 0 0 0 = parse_chunk ?s (length ?s) c0 1 0 0"
      using sg assms(3) by (subst parse_chunk.simps) (simp add: char_at_def)
    then show ?thesis using main sg by simp
  qed
qed

lemma chunk_arith:
  fixes L :: nat
  assumes "9 \<le> L"
  defines "c0 \<equiv> (if L mod 9 = 0 then 9 else L mod 9)"
  defines "cnt \<equiv> (L + 8) div 9"
  shows "0 < c0" "c0 \<le> L" "0 < cnt" "c0 + 9 * (cnt - 1) = L"
proof -
  define q where "q = L div 9"
  define r where "r = L mod 9"
  have L: "L = 9 * q + r" by (simp add: q_def r_def)
  have r9: "r < 9" by (simp add: r_def)
  have q1: "1 \<le> q" using assms(1) by (simp add: q_def)
  have "(9 * q + r + 8) div 9 = q + (r + 8) div 9"
    by (simp add: add.assoc)
  moreover have "(r + 8) div 9 = (if r = 0 then 0 else 1)"
    using r9 by (cases "r = 0") simp_all
  ultimately have cnt: "cnt = (if r = 0 then q else q + 1)"
    by (simp add: cnt_def L)
  have c0: "c0 = (if r = 0 then 9 else r)" by (simp add: c0_def r_def)
  show "0 < c0" by (simp add: c0)
  show "c0 \<le> L" using assms(1) r9 by (simp add: c0 L)
  show "0 < cnt" using q1 by (simp add: cnt)
  show "c0 + 9 * (cnt - 1) = L" using q1 by (simp add: c0 cnt L algebra_simps)
qed

lemma parse_big_digits:
  assumes "list_all isdigit ds" "sign = ''-'' \<or> sign = []" "9 \<le> length ds"
  defines "cnt \<equiv> (length ds + 8) div 9"
  defines "c0 \<equiv> (if length ds mod 9 = 0 then 9 else length ds mod 9)"
  shows "\<exists>b'. parse_chunks (sign @ ds) (length (sign @ ds)) 0 (bigint_alloc cnt neg) cnt c0
            = Some (b', 0)
          \<and> count b' = cnt \<and> is_neg b' = neg \<and> wf_buf b' \<and> in_range (live b')
          \<and> digits_val (live b') = int (dec_val ds)
          \<and> digits b' ! (cnt - 1) = int (dec_val (take c0 ds))"
proof -
  let ?s = "sign @ ds"
  let ?e = "length ?s"
  let ?b = "bigint_alloc cnt neg"
  note ar = chunk_arith[OF assms(3), folded c0_def cnt_def]
  let ?d0 = "int (dec_val (take c0 ds))"
  let ?b1 = "?b\<lparr>digits := (digits ?b)[cnt - 1 := ?d0]\<rparr>"
  have pc: "parse_chunk ?s ?e c0 0 0 0 = (length sign + c0, ?d0)"
    by (rule parse_chunk_first[OF assms(1,2) ar(1,2)])
  have lb: "cnt \<le> length (digits ?b)" by (simp add: roundup_ge)
  have w: "wr ?b (cnt - 1) ?d0 = Some ?b1" using lb ar(3) by (simp add: wr_Some)
  have a2: "length sign + c0 + 9 * (cnt - 1) = ?e" using ar(4) by simp
  have dr: "drop (length sign + c0) (take ?e ?s) = drop c0 ds" by simp
  have a3: "list_all isdigit (drop (length sign + c0) (take ?e ?s))"
    unfolding dr using assms(1) unfolding list_all_iff by (meson in_set_dropD)
  have a4: "cnt - 1 \<le> length (digits ?b1)" using lb by simp
  from parse_chunks_digits[OF le_refl a2 a3 a4]
  obtain b' where b'0: "parse_chunks ?s ?e (length sign + c0) ?b1 (cnt - 1) LOG_BASE = Some (b', 0)
      \<and> length (digits b') = length (digits ?b1) \<and> count b' = count ?b1 \<and> is_neg b' = is_neg ?b1
      \<and> extra b' = extra ?b1
      \<and> drop (cnt - 1) (digits b') = drop (cnt - 1) (digits ?b1)
      \<and> in_range (take (cnt - 1) (digits b'))
      \<and> digits_val (take (cnt - 1) (digits b')) = int (dec_val (drop (length sign + c0) (take ?e ?s)))" ..
  then have b': "parse_chunks ?s ?e (length sign + c0) ?b1 (cnt - 1) LOG_BASE = Some (b', 0)"
    "length (digits b') = bigint_roundup_count cnt" "count b' = cnt" "is_neg b' = neg"
    "extra b' = bigint_roundup_count cnt - cnt"
    "drop (cnt - 1) (digits b') = drop (cnt - 1) ((digits ?b)[cnt - 1 := ?d0])"
    "in_range (take (cnt - 1) (digits b'))"
    "digits_val (take (cnt - 1) (digits b')) = int (dec_val (drop c0 ds))"
    by (simp_all only: dr) simp_all
  have klt: "cnt - 1 < length (digits b')" using lb ar(3) b'(2) by simp
  have "drop (cnt - 1) ((digits ?b)[cnt - 1 := ?d0]) = ?d0 # drop (Suc (cnt - 1)) (digits ?b)"
    using lb ar(3) by (simp add: upd_conv_take_nth_drop)
  moreover have "drop (cnt - 1) (digits b') = digits b' ! (cnt - 1) # drop (Suc (cnt - 1)) (digits b')"
    using klt by (simp add: Cons_nth_drop_Suc)
  ultimately have nth: "digits b' ! (cnt - 1) = ?d0" using b'(6) by simp
  have tk: "take cnt (digits b') = take (cnt - 1) (digits b') @ [?d0]"
    using klt nth ar(3) take_Suc_conv_app_nth[of "cnt - 1" "digits b'"] by simp
  have td: "list_all isdigit (take c0 ds)"
    using assms(1) unfolding list_all_iff by (meson in_set_takeD)
  have dlt: "?d0 < BASE"
  proof -
    have "dec_val (take c0 ds) < 10 ^ c0" using dec_val_bound[OF td] ar(2) by simp
    also have "\<dots> \<le> (10::nat) ^ 9" using ar(1,4) by (intro power_increasing) (auto simp: c0_def)
    finally show ?thesis by (simp add: BASE_def)
  qed
  have ld: "length (drop c0 ds) = 9 * (cnt - 1)" using ar(4) by simp
  have "int (dec_val ds) = int (dec_val (take c0 ds @ drop c0 ds))" by simp
  also have "\<dots> = ?d0 * 10 ^ (9 * (cnt - 1)) + int (dec_val (drop c0 ds))"
    unfolding dec_val_append ld by simp
  finally have dv: "int (dec_val ds) = ?d0 * 10 ^ (9 * (cnt - 1)) + int (dec_val (drop c0 ds))" .
  have val: "digits_val (take cnt (digits b')) = int (dec_val ds)"
    using b'(8) klt by (simp add: tk digits_val_snoc BASE_pow dv)
  have wf: "wf_buf b'"
    using b'(2,3,5) roundup_ge[of cnt] roundup_le[of cnt] by (simp add: wf_buf_def)
  have "ds \<noteq> []" using assms(3) by auto
  then have "parse_chunks ?s ?e 0 ?b cnt c0 = Some (b', 0)"
    using pc w b'(1) ar(3) assms(3) by (subst parse_chunks.simps) simp
  then show ?thesis
    using b'(3,4,7) wf val dlt nth by (intro exI[of _ b']) (simp add: live_def tk)
qed

lemma parse_construct_digits:
  assumes "ds \<noteq> []" "list_all isdigit ds" "sign = ''-'' \<or> sign = []"
  shows "\<exists>v. parse_construct smin smax (sign @ ds) (sign = ''-'') (length (sign @ ds)) (length ds) 0 0
              = Some v
           \<and> integer_val v = (if sign = ''-'' then - 1 else 1) * int (dec_val ds)"
proof (cases "length ds < 9")
  case True
  have "parse_small_digits (sign @ ds) (length (sign @ ds)) = int (dec_val ds)"
    by (rule parse_small_digits_sign[OF assms(2,3)])
  then show ?thesis
    using True integer_from_int_val[of smin smax "- int (dec_val ds)"]
          integer_from_int_val[of smin smax "int (dec_val ds)"]
    by (auto simp: parse_construct_def Let_def LOG_BASE_def)
next
  case False
  then have L: "9 \<le> length ds" by simp
  from parse_big_digits[OF assms(2,3) L, of "sign = ''-''"]
  obtain b' where b': "parse_chunks (sign @ ds) (length (sign @ ds)) 0
        (bigint_alloc ((length ds + 8) div 9) (sign = ''-'')) ((length ds + 8) div 9)
        (if length ds mod 9 = 0 then 9 else length ds mod 9) = Some (b', 0)"
     "count b' = (length ds + 8) div 9" "is_neg b' = (sign = ''-'')" "wf_buf b'"
     "digits_val (live b') = int (dec_val ds)" by blast
  have fz: "fill_zero b' 0 0 = Some b'" by (subst fill_zero.simps) simp
  have "0 < (length ds + 8) div 9" using L by simp
  then have "0 < length (digits b')" using b'(2,4) unfolding wf_buf_def by linarith
  from integer_bigint_val[OF this, of smax] obtain v where
    v: "integer_bigint smax b' = Some v" "integer_val v = bigint_val b'" by blast
  have "parse_construct smin smax (sign @ ds) (sign = ''-'') (length (sign @ ds)) (length ds) 0 0
        = Some v"
  proof (cases "length ds mod 9 = 0")
    case True
    then show ?thesis using False b'(1) fz v(1)
      by (simp add: parse_construct_def Let_def LOG_BASE_def)
  next
    case nz: False
    then show ?thesis using False b'(1) fz v(1)
      by (simp add: parse_construct_def Let_def LOG_BASE_def)
  qed
  then show ?thesis using v(2) b'(3,5) by (simp add: bigint_val_def)
qed

lemma digits_no_sign:
  "list_all isdigit ds \<Longrightarrow> CHR ''+'' \<notin> set ds \<and> filter (\<lambda>c. c = CHR ''-'') ds = []"
  by (induction ds) auto

text \<open>
  Claim C3: for every well-formed integer \<open>x\<close>, \<^verbatim>\<open>integer_to_string\<close> returns a string that
  \<^verbatim>\<open>integer_parse\<close> reads back as the same integer; the string is an optional \<open>-\<close> followed by
  decimal digits without a leading zero (the single digit \<open>0\<close> apart), it contains no \<open>+\<close>,
  and it contains exactly one \<open>-\<close> if \<open>x\<close> is negative and none otherwise.  This holds for
  every range of small integers and every width of \<^verbatim>\<open>size_t\<close>.
\<close>

theorem parse_to_string_round_trip:
  assumes "wf_integer x"
  shows "\<exists>str ds. integer_to_string x = Some str
           \<and> map_sum id integer_val (integer_parse size_bits smin smax str) = Inr (integer_val x)
           \<and> str = (if integer_val x < 0 then ''-'' else []) @ ds
           \<and> ds \<noteq> [] \<and> list_all isdigit ds \<and> (ds = ''0'' \<or> hd ds \<noteq> CHR ''0'')
           \<and> CHR ''+'' \<notin> set str
           \<and> length (filter (\<lambda>c. c = CHR ''-'') str) = (if integer_val x < 0 then 1 else 0)"
proof -
  from integer_to_string_props[OF assms] obtain ds where ds:
    "integer_to_string x = Some ((if integer_val x < 0 then ''-'' else []) @ ds)"
    "ds \<noteq> []" "list_all isdigit ds" "ds = ''0'' \<or> hd ds \<noteq> CHR ''0''"
    "int (dec_val ds) = \<bar>integer_val x\<bar>" by blast
  define sign where "sign = (if integer_val x < 0 then ''-'' else [])"
  have sg: "sign = ''-'' \<or> sign = []" by (simp add: sign_def)
  have neg: "(sign = ''-'') = (integer_val x < 0)" by (simp add: sign_def)
  note sc = parse_scan_digits[OF ds(2,3) sg]
  from parse_construct_digits[OF ds(2,3) sg, of smin smax] obtain v where v:
    "parse_construct smin smax (sign @ ds) (sign = ''-'') (length (sign @ ds)) (length ds) 0 0 = Some v"
    "integer_val v = (if sign = ''-'' then - 1 else 1) * int (dec_val ds)" by blast
  have p: "integer_parse size_bits smin smax (sign @ ds) = Inr v"
    using sc v(1) by (simp add: integer_parse_def)
  have vx: "integer_val v = integer_val x" using v(2) ds(5) neg by auto
  note ns = digits_no_sign[OF ds(3)]
  have "integer_to_string x = Some (sign @ ds)
      \<and> map_sum id integer_val (integer_parse size_bits smin smax (sign @ ds)) = Inr (integer_val x)
      \<and> sign @ ds = (if integer_val x < 0 then ''-'' else []) @ ds
      \<and> ds \<noteq> [] \<and> list_all isdigit ds \<and> (ds = ''0'' \<or> hd ds \<noteq> CHR ''0'')
      \<and> CHR ''+'' \<notin> set (sign @ ds)
      \<and> length (filter (\<lambda>c. c = CHR ''-'') (sign @ ds)) = (if integer_val x < 0 then 1 else 0)"
    using ds(1-4) p vx ns by (simp add: sign_def)
  then show ?thesis by blast
qed

text \<open>The round trip at \<open>-12000000005\<close>, a canonical big integer of two digits.\<close>

theorem parse_to_string_round_trip_witness:
  "wf_integer (Big \<lparr>is_neg = True, extra = 2, count = 2, digits = [5, 12, 0, 0]\<rparr>)
   \<and> integer_val (Big \<lparr>is_neg = True, extra = 2, count = 2, digits = [5, 12, 0, 0]\<rparr>)
       = - 12000000005
   \<and> (\<exists>str ds. integer_to_string (Big \<lparr>is_neg = True, extra = 2, count = 2, digits = [5, 12, 0, 0]\<rparr>)
             = Some str
         \<and> map_sum id integer_val (integer_parse 32 (- 536870912) 536870911 str) = Inr (- 12000000005)
         \<and> str = ''-'' @ ds
         \<and> ds \<noteq> [] \<and> list_all isdigit ds \<and> (ds = ''0'' \<or> hd ds \<noteq> CHR ''0'')
         \<and> CHR ''+'' \<notin> set str
         \<and> length (filter (\<lambda>c. c = CHR ''-'') str) = 1)"
proof -
  let ?x = "Big \<lparr>is_neg = True, extra = 2, count = 2, digits = [5, 12, 0, 0]\<rparr>"
  have wf: "wf_integer ?x"
    by (simp add: wf_integer_def canonical_def in_range_def live_def BASE_def)
  have v: "integer_val ?x = - 12000000005"
    by (simp add: bigint_val_def live_def BASE_def)
  show ?thesis
    using parse_to_string_round_trip[OF wf, of 32 "- 536870912" 536870911] wf
    unfolding v by simp
qed

section \<open>Division\<close>

text \<open>The rest of the theory proves that \<^verbatim>\<open>integer_div_mod_generic\<close> computes the truncated
  quotient and remainder: first the buffer operations that the division is made of, then
  the long division itself (\<^verbatim>\<open>bigint_div_mod\<close>), then the integer interface.\<close>

subsection \<open>Digits and their value\<close>

lemma BASE_pos [simp]: "0 < BASE" "0 \<le> BASE" "1 < BASE" "BASE \<noteq> 0"
  by (simp_all add: BASE_def)



lemma digits_val_take_add:
  "a \<le> length xs \<Longrightarrow>
   digits_val (take (a + b) xs) = digits_val (take a xs) + BASE ^ a * digits_val (take b (drop a xs))"
  by (simp add: take_add digits_val_append)





lemma in_range_drop: "in_range xs \<Longrightarrow> in_range (drop n xs)"
  by (metis append_take_drop_id in_range_simps(3))


subsection \<open>Division by a small number\<close>


subsection \<open>Trim and reuse\<close>

lemma realloc_digits_length [simp]: "length (realloc_digits ds n) = n"
  by (simp add: realloc_digits_def)







lemma wf_buf_digits_update:
  "length ds = length (digits z) \<Longrightarrow> count z' = count z \<Longrightarrow> extra z' = extra z
   \<Longrightarrow> length (digits z') = length (digits z) \<Longrightarrow> wf_buf z' = wf_buf z"
  by (simp add: wf_buf_def)



subsection \<open>Multiplication by a small number\<close>








subsection \<open>Long division\<close>

lemma drop_update_later: "i < j \<Longrightarrow> drop j (xs[i := v]) = drop j xs"
  by simp

























subsection \<open>Comparison of magnitudes\<close>



subsection \<open>From integers to buffers and back\<close>






subsection \<open>Division on integers\<close>










text \<open>For instance \<open>- 17 = (- 3) * 5 + (- 2)\<close>, through the division by a small number.\<close>
lemma integer_div_mod_generic_example:
  "integer_div_mod_generic (- 536870912) 536870911 True True (Small (- 17)) (Small 5) True
     = Inr (Small (- 3), Some (Small (- 2)))"
  by (simp add: integer_div_mod_generic_def bigint_from_int_def from_int_loop.simps storage_defs
        bigint_div_mod_small_def c_div_def integer_bigint_def integer_from_int_def
        replicate_numeral_unfold Let_def)

section \<open>Karatsuba multiplication\<close>

text \<open>At or below the threshold \<^verbatim>\<open>bigint_mul_karatsuba\<close> is \<^verbatim>\<open>bigint_mul\<close>.\<close>
lemma bigint_mul_karatsuba_small:
  "max (count x) (count y) \<le> 25 \<Longrightarrow> bigint_mul_karatsuba x y = bigint_mul x y"
  by (subst bigint_mul_karatsuba.simps) simp

lemma bigint_mul_karatsuba_big:
  "\<not> max (count x) (count y) \<le> 25 \<Longrightarrow>
   bigint_mul_karatsuba x y =
        (let n = (max (count x) (count y) + 1) div 2 in
         Option.bind (bigint_slice False x n (count x)) (\<lambda>b.
         Option.bind (bigint_slice False x 0 n) (\<lambda>a.
         Option.bind (bigint_slice False y n (count y)) (\<lambda>d.
         Option.bind (bigint_slice False y 0 n) (\<lambda>c.
         Option.bind (bigint_mul_karatsuba a c) (\<lambda>ac.
         Option.bind (bigint_mul_karatsuba b d) (\<lambda>bd.
         Option.bind (bigint_add (max (count a) (count c) \<le> 25) (max (count b) (count d) \<le> 25)
                        a b (is_neg b)) (\<lambda>ab.
         Option.bind (bigint_add (max (count a) (count c) \<le> 25) (max (count b) (count d) \<le> 25)
                        c d (is_neg d)) (\<lambda>cd.
         Option.bind (bigint_mul_karatsuba ab cd) (\<lambda>abcd.
         Option.bind (bigint_sub True False abcd ac (is_neg ac)) (\<lambda>s1.
         Option.bind (bigint_sub True False s1 bd (is_neg bd)) (\<lambda>s2.
         Option.bind (bigint_shift_left True s2 (int n)) (\<lambda>p1.
         Option.bind (bigint_shift_left True bd (2 * int n)) (\<lambda>p2.
         Option.bind (bigint_add True True ac p1 (is_neg p1)) (\<lambda>t.
         Option.bind (bigint_add True True t p2 (is_neg p2)) (\<lambda>prod.
         bigint_trim prod True))))))))))))))))"
  by (subst bigint_mul_karatsuba.simps) (rule if_not_P)

text \<open>One round of each loop of \<^verbatim>\<open>bigint_mul\<close> in closed form, for evaluation.\<close>
lemma mul_inner_step:
  "j < cy \<Longrightarrow> j < length (digits y) \<Longrightarrow> i + j + 1 < length (digits z) \<Longrightarrow>
   mul_inner y dx i cy z j =
     mul_inner y dx i cy
       (z\<lparr>digits := (digits z)[i + j := (dx * digits y ! j + digits z ! (i + j))
                                        - c_div (dx * digits y ! j + digits z ! (i + j)) BASE * BASE,
                                i + j + 1 := digits z ! (i + j + 1)
                                        + c_div (dx * digits y ! j + digits z ! (i + j)) BASE]\<rparr>)
       (j + 1)"
  by (subst mul_inner.simps) (simp add: rd_def wr_def Let_def)

lemma mul_inner_done: "\<not> j < cy \<Longrightarrow> mul_inner y dx i cy z j = Some z"
  by (subst mul_inner.simps) simp

lemma mul_outer_step:
  "i < cx \<Longrightarrow> i < length (digits x) \<Longrightarrow>
   mul_outer x y cx cy z i =
     (case mul_inner y (digits x ! i) i cy z 0 of None \<Rightarrow> None
      | Some z' \<Rightarrow> mul_outer x y cx cy z' (i + 1))"
  by (subst mul_outer.simps) (simp add: rd_def)

lemma mul_outer_done: "\<not> i < cx \<Longrightarrow> mul_outer x y cx cy z i = Some z"
  by (subst mul_outer.simps) simp

lemmas mul_defs =
  bigint_mul_def mul_inner_step mul_inner_done mul_outer_step mul_outer_done
  bigint_slice_def bigint_shift_left_def
  bigint_mul_karatsuba_small bigint_mul_karatsuba_big
  bigint_add.simps bigint_sub.simps bigint_add_abs_def bigint_sub_abs_def
  add_abs_digits.simps add_abs_carry.simps copy_digits_upto.simps
  sub_abs_digits.simps sub_abs_borrow.simps bigint_compare_abs_def c_div_def

text \<open>
  Claim C4 says that \<^verbatim>\<open>bigint_mul_karatsuba\<close> returns the value of the schoolbook product for
  every pair of big integers.  Take \<open>x = y = 10^225\<close> (26 digits: 25 zeros and a one).  The
  low halves \<open>a\<close> and \<open>c\<close> are 13 zeros, so \<open>ac\<close> comes back from \<^verbatim>\<open>bigint_mul\<close> trimmed to
  \<open>count = 0\<close>.  The steps up to \<open>p1\<close> go through, and then
  \<^verbatim>\<open>bigint_add(ac, p1, p1->is_neg)\<close> calls \<^verbatim>\<open>bigint_add_abs(p1, ac)\<close>, whose first statement reads
  \<^verbatim>\<open>bigint_last_digit_(ac)\<close>, that is \<^verbatim>\<open>ac->digits[ac->count - 1]\<close> with \<open>count = 0\<close>: an access
  outside the digit array, and \<^verbatim>\<open>bigint_mul_karatsuba\<close> has no defined result.  The schoolbook
  \<^verbatim>\<open>bigint_mul\<close> returns \<open>10^450\<close> on the same operands.
\<close>

theorem bigint_mul_karatsuba_zero_low_half:
  "(let x = \<lparr>is_neg = False, extra = 0, count = 26, digits = replicate 25 0 @ [1]\<rparr>;
        y = \<lparr>is_neg = False, extra = 0, count = 26, digits = replicate 25 0 @ [1]\<rparr>;
        a = \<lparr>is_neg = False, extra = 1, count = 13, digits = replicate 13 0 @ [uninit]\<rparr>;
        b = \<lparr>is_neg = False, extra = 1, count = 13, digits = replicate 12 0 @ [1, uninit]\<rparr>;
        c = \<lparr>is_neg = False, extra = 1, count = 13, digits = replicate 13 0 @ [uninit]\<rparr>;
        d = \<lparr>is_neg = False, extra = 1, count = 13, digits = replicate 12 0 @ [1, uninit]\<rparr>;
        ac = \<lparr>is_neg = False, extra = 26, count = 0, digits = replicate 26 0\<rparr>;
        bd = \<lparr>is_neg = False, extra = 1, count = 25, digits = replicate 24 0 @ [1, 0]\<rparr>;
        ab = \<lparr>is_neg = False, extra = 1, count = 13, digits = replicate 12 0 @ [1, uninit]\<rparr>;
        cd = \<lparr>is_neg = False, extra = 1, count = 13, digits = replicate 12 0 @ [1, uninit]\<rparr>;
        abcd = \<lparr>is_neg = False, extra = 1, count = 25, digits = replicate 24 0 @ [1, 0]\<rparr>;
        s1 = \<lparr>is_neg = False, extra = 1, count = 25, digits = replicate 24 0 @ [1, 0]\<rparr>;
        s2 = \<lparr>is_neg = False, extra = 26, count = 0, digits = replicate 26 0\<rparr>;
        p1 = \<lparr>is_neg = False, extra = 13, count = 13, digits = replicate 26 0\<rparr>
    in bigint_slice False x 13 26 = Some b
     \<and> bigint_slice False x 0 13 = Some a
     \<and> bigint_slice False y 13 26 = Some d
     \<and> bigint_slice False y 0 13 = Some c
     \<and> bigint_mul_karatsuba a c = Some ac
     \<and> bigint_mul_karatsuba b d = Some bd
     \<and> bigint_add True True a b (is_neg b) = Some ab
     \<and> bigint_add True True c d (is_neg d) = Some cd
     \<and> bigint_mul_karatsuba ab cd = Some abcd
     \<and> bigint_sub True False abcd ac (is_neg ac) = Some s1
     \<and> bigint_sub True False s1 bd (is_neg bd) = Some s2
     \<and> bigint_shift_left True s2 13 = Some p1
     \<and> count ac = 0
     \<and> bigint_last_digit ac = None
     \<and> bigint_add True True ac p1 (is_neg p1) = None
     \<and> bigint_mul_karatsuba x y = None
     \<and> map_option bigint_val (bigint_mul x y) = Some (10 ^ 450))"
  by (simp add: mul_defs storage_defs replicate_numeral_unfold bigint_val_def live_def)

end
